theory Spec2Isabelle
  imports Main "HOL-Library.Word" "HOL-Library.Sublist" "HOL-Library.AList"
begin

section \<open>JavaScript strings\<close>

text \<open>
  A JavaScript string is a sequence of UTF-16 code units, and every index the string
  methods take or return counts code units. The sentinel markers of the generated code
  contain the letter Omega (code unit 937), which is one code unit.
\<close>

type_synonym jsstring = "16 word list"

definition js_str :: "string \<Rightarrow> jsstring" where
  \<comment> \<open>An ASCII literal as code units.\<close>
  "js_str s = map of_char s"

definition js_clamp :: "int \<Rightarrow> nat \<Rightarrow> nat" where
  \<comment> \<open>Clamping an integer position between 0 and the length.\<close>
  "js_clamp i n = (if i < 0 then 0 else min (nat i) n)"

definition substring :: "jsstring \<Rightarrow> int \<Rightarrow> int \<Rightarrow> jsstring" where
  \<comment> \<open>\<open>String.prototype.substring\<close>: both positions are clamped, then swapped when
      the first is larger than the second.\<close>
  "substring t a b =
     (let n = length t; a' = js_clamp a n; b' = js_clamp b n;
          from = min a' b'; to = max a' b'
      in take (to - from) (drop from t))"

definition slice :: "jsstring \<Rightarrow> int \<Rightarrow> int \<Rightarrow> jsstring" where
  \<comment> \<open>\<open>String.prototype.slice\<close>: a negative position counts from the end; no swap.\<close>
  "slice t a b =
     (let n = int (length t);
          from = (if a < 0 then max (n + a) 0 else min a n);
          to = (if b < 0 then max (n + b) 0 else min b n)
      in take (nat (to - from)) (drop (nat from) t))"

definition matches_at :: "jsstring \<Rightarrow> jsstring \<Rightarrow> nat \<Rightarrow> bool" where
  \<comment> \<open>The search string occurs in the text at index k.\<close>
  "matches_at t s k = (k + length s \<le> length t \<and> take (length s) (drop k t) = s)"

definition indexOf :: "jsstring \<Rightarrow> jsstring \<Rightarrow> int \<Rightarrow> int" where
  \<comment> \<open>\<open>String.prototype.indexOf(search, position)\<close>: the smallest index at or after the
      clamped position where the search string occurs, or -1.\<close>
  "indexOf t s pos =
     (case List.find (matches_at t s) [js_clamp pos (length t) ..< Suc (length t) - length s] of
        None \<Rightarrow> - 1
      | Some k \<Rightarrow> int k)"

definition lastIndexOf :: "jsstring \<Rightarrow> jsstring \<Rightarrow> int option \<Rightarrow> int" where
  \<comment> \<open>\<open>String.prototype.lastIndexOf(search, position)\<close>: the largest index at or before
      the clamped position where the search string occurs, or -1; without a position the
      search starts from the end (position \<open>+Infinity\<close>).\<close>
  "lastIndexOf t s pos =
     (let start = (case pos of None \<Rightarrow> length t | Some p \<Rightarrow> js_clamp p (length t))
      in if length t < length s then - 1
         else case List.find (matches_at t s) (rev [0 ..< Suc (min start (length t - length s))]) of
                None \<Rightarrow> - 1
              | Some k \<Rightarrow> int k)"

definition js_includes :: "jsstring \<Rightarrow> jsstring \<Rightarrow> bool" where
  \<comment> \<open>\<open>String.prototype.includes(search)\<close>.\<close>
  "js_includes t s = (indexOf t s 0 \<noteq> - 1)"

definition endsWith :: "jsstring \<Rightarrow> jsstring \<Rightarrow> bool" where
  \<comment> \<open>\<open>String.prototype.endsWith(search)\<close>.\<close>
  "endsWith t s = (length s \<le> length t \<and> drop (length t - length s) t = s)"

definition startsWith :: "jsstring \<Rightarrow> jsstring \<Rightarrow> bool" where
  \<comment> \<open>\<open>String.prototype.startsWith(search)\<close>.\<close>
  "startsWith t s = (take (length s) t = s)"


section \<open>typescript-plugin/src/utils.ts\<close>

subsection \<open>Svelte file paths\<close>

definition isSvelteFilePath :: "jsstring \<Rightarrow> bool" where
  "isSvelteFilePath filePath = endsWith filePath (js_str ''.svelte'')"

definition isVirtualSvelteFilePath :: "jsstring \<Rightarrow> bool" where
  "isVirtualSvelteFilePath filePath = endsWith filePath (js_str ''.svelte.ts'')"

definition toRealSvelteFilePath :: "jsstring \<Rightarrow> jsstring" where
  "toRealSvelteFilePath filePath = slice filePath 0 (- int (length (js_str ''.ts'')))"

definition ensureRealSvelteFilePath :: "jsstring \<Rightarrow> jsstring" where
  "ensureRealSvelteFilePath filePath =
     (if isVirtualSvelteFilePath filePath then toRealSvelteFilePath filePath else filePath)"

subsection \<open>Generated code regions\<close>

definition newline :: jsstring where
  "newline = [10]"

definition ignore_start :: jsstring where
  \<comment> \<open>The literal \<open>/*\<Omega>ignore_start\<Omega>*/\<close>.\<close>
  "ignore_start = js_str ''/*'' @ [937] @ js_str ''ignore_start'' @ [937] @ js_str ''*/''"

definition ignore_end :: jsstring where
  \<comment> \<open>The literal \<open>/*\<Omega>ignore_end\<Omega>*/\<close>.\<close>
  "ignore_end = js_str ''/*'' @ [937] @ js_str ''ignore_end'' @ [937] @ js_str ''*/''"

definition isInGeneratedCode :: "jsstring \<Rightarrow> int \<Rightarrow> int \<Rightarrow> bool" where
  "isInGeneratedCode text start end =
     (let lineStart = lastIndexOf text newline (Some start);
          lineEnd = indexOf text newline end;
          lastStart = lastIndexOf (substring text lineStart start) ignore_start None;
          lastEnd = lastIndexOf (substring text lineStart start) ignore_end None
      in lastStart > lastEnd \<and> js_includes (substring text end lineEnd) ignore_end)"

definition last_line_text :: jsstring where
  \<comment> \<open>Two lines, the second without a line break at its end:
      the close marker, then the open marker followed by \<open>xy\<close>.\<close>
  "last_line_text = ignore_end @ newline @ ignore_start @ js_str ''xy''"

subsection \<open>Syntax trees\<close>

text \<open>
  A \<open>ts.Node\<close> as far as the utilities look at it: its identity as an object (\<open>nid\<close>),
  \<open>getStart()\<close>, \<open>getEnd()\<close> and \<open>getChildren()\<close>.
\<close>

datatype node = Node (nid: nat) (getStart: int) (getEnd: int) (getChildren: "node list")

text \<open>The span argument \<open>{ start, length }\<close>.\<close>

record span =
  span_start :: int
  span_length :: int

text \<open>
  The body of \<open>findNodeAtSpan\<close> is a loop over \<open>node.getChildren()\<close>;
  \<open>findNodeAtSpan_children\<close> is that loop on the children still to visit. A missing
  predicate is \<open>None\<close>, the \<open>void\<close> result is \<open>None\<close>.
\<close>

fun findNodeAtSpan :: "node \<Rightarrow> span \<Rightarrow> (node \<Rightarrow> bool) option \<Rightarrow> node option"
  and findNodeAtSpan_children :: "node list \<Rightarrow> span \<Rightarrow> (node \<Rightarrow> bool) option \<Rightarrow> node option"
where
  "findNodeAtSpan (Node i s e children) sp predicate = findNodeAtSpan_children children sp predicate"
| "findNodeAtSpan_children [] sp predicate = None"
| "findNodeAtSpan_children (child # rest) sp predicate =
     (if span_start sp + span_length sp \<le> getStart child then None
      else if span_start sp \<ge> getEnd child then findNodeAtSpan_children rest sp predicate
      else if span_start sp = getStart child \<and> span_start sp + span_length sp = getEnd child
              \<and> predicate = None
        then Some child
      else if span_start sp = getStart child \<and> span_start sp + span_length sp = getEnd child
              \<and> (case predicate of None \<Rightarrow> False | Some p \<Rightarrow> p child)
        then Some child
      else (case findNodeAtSpan child sp predicate of
              Some foundInChildren \<Rightarrow> Some foundInChildren
            | None \<Rightarrow> findNodeAtSpan_children rest sp predicate))"

text \<open>\<open>dest.push(node)\<close> appends to the list that is passed on and returned.\<close>

fun gatherDescendants :: "node \<Rightarrow> (node \<Rightarrow> bool) \<Rightarrow> node list \<Rightarrow> node list"
  and gatherDescendants_children :: "node list \<Rightarrow> (node \<Rightarrow> bool) \<Rightarrow> node list \<Rightarrow> node list"
where
  "gatherDescendants (Node i s e children) predicate dest =
     (if predicate (Node i s e children) then dest @ [Node i s e children]
      else gatherDescendants_children children predicate dest)"
| "gatherDescendants_children [] predicate dest = dest"
| "gatherDescendants_children (child # rest) predicate dest =
     gatherDescendants_children rest predicate (gatherDescendants child predicate dest)"

text \<open>
  Vocabulary for the properties: the nodes of a tree in document order (a node before its
  children, the children from left to right), the proper descendants of a node, and the
  shape the compiler gives its trees: siblings in increasing order without overlap, each
  child inside its parent's range.
\<close>

fun nodes :: "node \<Rightarrow> node list" and nodes_list :: "node list \<Rightarrow> node list" where
  "nodes (Node i s e children) = Node i s e children # nodes_list children"
| "nodes_list [] = []"
| "nodes_list (child # rest) = nodes child @ nodes_list rest"

definition descendants :: "node \<Rightarrow> node list" where
  "descendants n = nodes_list (getChildren n)"

fun ordered_siblings :: "node list \<Rightarrow> bool" where
  "ordered_siblings [] = True"
| "ordered_siblings [c] = True"
| "ordered_siblings (c # d # cs) = (getEnd c \<le> getStart d \<and> ordered_siblings (d # cs))"

fun well_formed :: "node \<Rightarrow> bool" where
  "well_formed (Node i s e children) =
     (s \<le> e \<and> ordered_siblings children
      \<and> (\<forall>c \<in> set children. s \<le> getStart c \<and> getEnd c \<le> e \<and> well_formed c))"

definition exact_match :: "span \<Rightarrow> (node \<Rightarrow> bool) option \<Rightarrow> node \<Rightarrow> bool" where
  \<comment> \<open>The node's range is exactly the span and the predicate, when given, accepts it.\<close>
  "exact_match sp predicate n =
     (getStart n = span_start sp \<and> getEnd n = span_start sp + span_length sp
      \<and> (case predicate of None \<Rightarrow> True | Some p \<Rightarrow> p n))"

definition nested_tree :: node where
  \<comment> \<open>A statement covering [5,10) whose only child, an expression, covers [5,10) too.\<close>
  "nested_tree =
     Node 0 0 20
       [Node 1 0 4 [],
        Node 2 5 10 [Node 3 5 10 [Node 4 5 7 [], Node 5 8 10 []]],
        Node 6 12 20 []]"

subsection \<open>Module presence probe\<close>

text \<open>
  \<open>require.resolve\<close> belongs to the runtime: it is a parameter that either returns the
  resolved file name or throws. Of a thrown value only \<open>e?.code\<close> is read.
  \<open>compilerOptions.configFilePath\<close> is \<open>None\<close> when it is not a string. The function
  returns the value of \<open>typeof ... !== 'string' || require.resolve(...)\<close>, which is a
  boolean or the resolved file name.
\<close>

datatype thrown = Nullish | ErrorObject "jsstring option"

fun error_code :: "thrown \<Rightarrow> jsstring option" where
  "error_code Nullish = None"
| "error_code (ErrorObject c) = c"

datatype js_value = JBool bool | JString jsstring

fun truthy :: "js_value \<Rightarrow> bool" where
  "truthy (JBool b) = b"
| "truthy (JString s) = (s \<noteq> [])"

record CompilerOptions =
  configFilePath :: "jsstring option"

type_synonym resolver = "jsstring \<Rightarrow> jsstring list \<Rightarrow> thrown + jsstring"

definition hasNodeModule_try :: "resolver \<Rightarrow> CompilerOptions \<Rightarrow> jsstring \<Rightarrow> thrown + js_value" where
  \<comment> \<open>The \<open>try\<close> block.\<close>
  "hasNodeModule_try resolve compilerOptions module =
     (case configFilePath compilerOptions of
        None \<Rightarrow> Inr (JBool True)
      | Some path \<Rightarrow>
          (case resolve module [path] of
             Inl e \<Rightarrow> Inl e
           | Inr filename \<Rightarrow> Inr (JString filename)))"

definition hasNodeModule :: "resolver \<Rightarrow> CompilerOptions \<Rightarrow> jsstring \<Rightarrow> thrown + js_value" where
  \<comment> \<open>\<open>Inl\<close> would be an exception leaving the function.\<close>
  "hasNodeModule resolve compilerOptions module =
     (case hasNodeModule_try resolve compilerOptions module of
        Inr hasModule \<Rightarrow> Inr hasModule
      | Inl e \<Rightarrow> Inr (JBool (error_code e = Some (js_str ''ERR_PACKAGE_PATH_NOT_EXPORTED''))))"

definition absent_everywhere :: resolver where
  \<comment> \<open>A resolver for which no module exists.\<close>
  "absent_everywhere request paths = Inl (ErrorObject (Some (js_str ''MODULE_NOT_FOUND'')))"

definition sveltekit_resolver :: resolver where
  \<comment> \<open>\<open>svelte\<close> resolves, \<open>@sveltejs/kit\<close> is installed but does not export the
      requested path, nothing else exists.\<close>
  "sveltekit_resolver request paths =
     (if request = js_str ''svelte'' then Inr (js_str ''/w/node_modules/svelte/index.js'')
      else if request = js_str ''@sveltejs/kit''
        then Inl (ErrorObject (Some (js_str ''ERR_PACKAGE_PATH_NOT_EXPORTED'')))
      else Inl (ErrorObject (Some (js_str ''MODULE_NOT_FOUND''))))"


section \<open>language-server/test/plugins/typescript/test-utils.ts\<close>

subsection \<open>The host functions and FileMap\<close>

text \<open>
  \<open>isAbsolute\<close> and \<open>join\<close> come from the runtime's path module, \<open>normalizePath\<close>
  and \<open>createGetCanonicalFileName\<close> from the language server's utilities; they are
  parameters of the model, together with the current directory the system is created with.
\<close>

record host =
  currentDirectory :: jsstring
  isAbsolute :: "jsstring \<Rightarrow> bool"
  join :: "jsstring \<Rightarrow> jsstring \<Rightarrow> jsstring"
  normalizePath :: "jsstring \<Rightarrow> jsstring"
  getCanonicalFileName :: "jsstring \<Rightarrow> jsstring"

text \<open>
  Modelled from the spec: the class \<open>FileMap\<close> (fileCollection.ts), a map whose keys are
  case-normalized per the host's case-sensitivity setting: every access goes through
  \<open>getCanonicalFileName\<close>, and \<open>keys()\<close> yields the canonical names. The entries are kept
  in insertion order, as a JavaScript \<open>Map\<close> keeps them.
\<close>

type_synonym 'v FileMap = "(jsstring \<times> 'v) list"

definition fm_get :: "host \<Rightarrow> 'v FileMap \<Rightarrow> jsstring \<Rightarrow> 'v option" where
  \<comment> \<open>Modelled from the spec: \<open>FileMap.get\<close>, absent from the sources at hand.\<close>
  "fm_get h m filePath = map_of m (getCanonicalFileName h filePath)"

definition fm_has :: "host \<Rightarrow> 'v FileMap \<Rightarrow> jsstring \<Rightarrow> bool" where
  \<comment> \<open>Modelled from the spec: \<open>FileMap.has\<close>.\<close>
  "fm_has h m filePath = (map_of m (getCanonicalFileName h filePath) \<noteq> None)"

definition fm_set :: "host \<Rightarrow> 'v FileMap \<Rightarrow> jsstring \<Rightarrow> 'v \<Rightarrow> 'v FileMap" where
  \<comment> \<open>Modelled from the spec: \<open>FileMap.set\<close>; an existing key keeps its place.\<close>
  "fm_set h m filePath v = AList.update (getCanonicalFileName h filePath) v m"

definition fm_delete :: "host \<Rightarrow> 'v FileMap \<Rightarrow> jsstring \<Rightarrow> 'v FileMap" where
  \<comment> \<open>Modelled from the spec: \<open>FileMap.delete\<close>.\<close>
  "fm_delete h m filePath = AList.delete (getCanonicalFileName h filePath) m"

definition fm_keys :: "'v FileMap \<Rightarrow> jsstring list" where
  \<comment> \<open>Modelled from the spec: \<open>FileMap.keys\<close>, the canonical names.\<close>
  "fm_keys m = map fst m"

subsection \<open>The virtual system\<close>

text \<open>
  The four tables of \<open>createVirtualTsSystem\<close> and the part of the runtime they talk to:
  the timers scheduled by \<open>setTimeout\<close> and not yet run (oldest first), the next timer
  handle, the clock \<open>new Date()\<close> reads, and the calls the watcher callbacks have received.
  A callback is known by its identity (\<open>===\<close> compares function objects); what it
  does when it is called is its own business, the system's part is the call, which
  \<open>calls\<close> records with its two arguments.
\<close>

datatype FileWatcherEventKind = Created | Changed | Deleted

type_synonym callback = nat
type_synonym timer = nat

record vsys =
  virtualFs :: "jsstring FileMap"
  watchers :: "callback list FileMap"
  watchTimeout :: "timer list FileMap"
  modifiedTime :: "nat FileMap"
  pending :: "(timer \<times> jsstring \<times> FileWatcherEventKind) list"
  nextTimer :: timer
  clock :: nat
  calls :: "(callback \<times> jsstring \<times> FileWatcherEventKind) list"

definition createVirtualTsSystem :: vsys where
  "createVirtualTsSystem =
     \<lparr>virtualFs = [], watchers = [], watchTimeout = [], modifiedTime = [],
      pending = [], nextTimer = 0, clock = 0, calls = []\<rparr>"

definition toAbsolute :: "host \<Rightarrow> jsstring \<Rightarrow> jsstring" where
  "toAbsolute h path = (if isAbsolute h path then path else join h (currentDirectory h) path)"

definition registered :: "host \<Rightarrow> vsys \<Rightarrow> jsstring \<Rightarrow> callback list" where
  \<comment> \<open>\<open>watchers.get(normalizedPath)\<close>, with no entry read as no watcher.\<close>
  "registered h st normalizedPath =
     (case fm_get h (watchers st) normalizedPath of None \<Rightarrow> [] | Some watchersOfPath \<Rightarrow> watchersOfPath)"

definition triggerWatch :: "host \<Rightarrow> jsstring \<Rightarrow> FileWatcherEventKind \<Rightarrow> vsys \<Rightarrow> vsys" where
  \<comment> \<open>\<open>setTimeout(..., 0)\<close> queues the closure over \<open>normalizedPath\<close> and \<open>kind\<close> and
      returns a fresh handle.\<close>
  "triggerWatch h normalizedPath kind st =
     (let timeoutsOfPath =
            (case fm_get h (watchTimeout st) normalizedPath of None \<Rightarrow> [] | Some ts \<Rightarrow> ts);
          timeout = nextTimer st
      in st\<lparr>watchTimeout := fm_set h (watchTimeout st) normalizedPath (timeoutsOfPath @ [timeout]),
            pending := pending st @ [(timeout, normalizedPath, kind)],
            nextTimer := Suc timeout\<rparr>)"

definition writeFile :: "host \<Rightarrow> jsstring \<Rightarrow> jsstring \<Rightarrow> vsys \<Rightarrow> vsys" where
  "writeFile h path data st =
     (let normalizedPath = normalizePath h (toAbsolute h path);
          existsBefore = fm_has h (virtualFs st) normalizedPath
      in triggerWatch h normalizedPath (if existsBefore then Changed else Created)
           (st\<lparr>virtualFs := fm_set h (virtualFs st) normalizedPath data,
               modifiedTime := fm_set h (modifiedTime st) normalizedPath (clock st)\<rparr>))"

definition readFile :: "host \<Rightarrow> jsstring \<Rightarrow> vsys \<Rightarrow> jsstring option" where
  "readFile h path st = fm_get h (virtualFs st) (normalizePath h (toAbsolute h path))"

definition fileExists :: "host \<Rightarrow> jsstring \<Rightarrow> vsys \<Rightarrow> bool" where
  "fileExists h path st = fm_has h (virtualFs st) (normalizePath h (toAbsolute h path))"

definition directoryExists :: "host \<Rightarrow> jsstring \<Rightarrow> vsys \<Rightarrow> bool" where
  "directoryExists h path st =
     (let normalizedPath = getCanonicalFileName h (normalizePath h (toAbsolute h path))
      in list_ex (\<lambda>fileName. startsWith fileName normalizedPath) (fm_keys (virtualFs st)))"

definition deleteFile :: "host \<Rightarrow> jsstring \<Rightarrow> vsys \<Rightarrow> vsys" where
  "deleteFile h path st =
     (let normalizedPath = normalizePath h (toAbsolute h path);
          existsBefore = fm_has h (virtualFs st) normalizedPath;
          st' = st\<lparr>virtualFs := fm_delete h (virtualFs st) normalizedPath\<rparr>
      in if existsBefore then triggerWatch h normalizedPath Deleted st' else st')"

text \<open>
  \<open>watchFile\<close> returns the disposal handle: the closure \<open>close\<close> over the normalized
  path and the callback.
\<close>

type_synonym watch_handle = "jsstring \<times> callback"

definition watchFile :: "host \<Rightarrow> jsstring \<Rightarrow> callback \<Rightarrow> vsys \<Rightarrow> vsys \<times> watch_handle" where
  "watchFile h path callback st =
     (let normalizedPath = normalizePath h (toAbsolute h path);
          watchersOfPath =
            (case fm_get h (watchers st) normalizedPath of None \<Rightarrow> [] | Some ws \<Rightarrow> ws)
      in (st\<lparr>watchers := fm_set h (watchers st) normalizedPath (watchersOfPath @ [callback])\<rparr>,
          (normalizedPath, callback)))"

definition clearTimeout :: "timer \<Rightarrow> vsys \<Rightarrow> vsys" where
  \<comment> \<open>A cleared timer never runs; clearing one that has run does nothing.\<close>
  "clearTimeout timeout st = st\<lparr>pending := filter (\<lambda>(t, _). t \<noteq> timeout) (pending st)\<rparr>"

definition close :: "host \<Rightarrow> watch_handle \<Rightarrow> vsys \<Rightarrow> vsys" where
  "close h handle st =
     (let normalizedPath = fst handle; callback = snd handle;
          st' = (case fm_get h (watchers st) normalizedPath of
                   None \<Rightarrow> st
                 | Some watchersOfPath \<Rightarrow>
                     st\<lparr>watchers := fm_set h (watchers st) normalizedPath
                                        (filter (\<lambda>watcher. watcher = callback) watchersOfPath)\<rparr>)
      in case fm_get h (watchTimeout st') normalizedPath of
           None \<Rightarrow> st'
         | Some timeouts \<Rightarrow> fold clearTimeout timeouts st')"

definition getModifiedTime :: "host \<Rightarrow> jsstring \<Rightarrow> vsys \<Rightarrow> nat option" where
  "getModifiedTime h path st = fm_get h (modifiedTime st) (normalizePath h (toAbsolute h path))"

subsection \<open>Timers\<close>

text \<open>
  The closure a timer runs: every callback registered for the path at that moment is
  called with the path and the kind. \<open>tick\<close> runs the oldest timer, \<open>runTimers\<close> runs
  them until none is left.
\<close>

definition fire :: "host \<Rightarrow> jsstring \<Rightarrow> FileWatcherEventKind \<Rightarrow> vsys \<Rightarrow> vsys" where
  "fire h normalizedPath kind st =
     (case fm_get h (watchers st) normalizedPath of
        None \<Rightarrow> st
      | Some watchersOfPath \<Rightarrow>
          st\<lparr>calls := calls st @ map (\<lambda>callback. (callback, normalizedPath, kind)) watchersOfPath\<rparr>)"

definition tick :: "host \<Rightarrow> vsys \<Rightarrow> vsys" where
  "tick h st =
     (case pending st of
        [] \<Rightarrow> st
      | (timeout, normalizedPath, kind) # rest \<Rightarrow> fire h normalizedPath kind (st\<lparr>pending := rest\<rparr>))"

function runTimers :: "host \<Rightarrow> vsys \<Rightarrow> vsys" where
  "runTimers h st = (if pending st = [] then st else runTimers h (tick h st))"
  by pat_completeness auto
termination
  by (relation "measure (\<lambda>(h, st). length (pending st))")
     (auto simp: tick_def fire_def split: list.splits option.splits)

declare runTimers.simps [simp del]

subsection \<open>Runs of the system\<close>

datatype op =
    WriteFile jsstring jsstring
  | DeleteFile jsstring
  | WatchFile jsstring callback
  | CloseHandle watch_handle
  | Tick

fun exec :: "host \<Rightarrow> op \<Rightarrow> vsys \<Rightarrow> vsys" where
  "exec h (WriteFile path data) st = writeFile h path data st"
| "exec h (DeleteFile path) st = deleteFile h path st"
| "exec h (WatchFile path callback) st = fst (watchFile h path callback st)"
| "exec h (CloseHandle handle) st = close h handle st"
| "exec h Tick st = tick h st"

definition run :: "host \<Rightarrow> op list \<Rightarrow> vsys \<Rightarrow> vsys" where
  "run h ops st = fold (exec h) ops st"

definition file_key :: "host \<Rightarrow> jsstring \<Rightarrow> jsstring" where
  \<comment> \<open>The key a path is stored under.\<close>
  "file_key h path = getCanonicalFileName h (normalizePath h (toAbsolute h path))"

fun touches :: "host \<Rightarrow> jsstring \<Rightarrow> op \<Rightarrow> bool" where
  \<comment> \<open>The operation writes or deletes the file the path names.\<close>
  "touches h path (WriteFile q data) = (file_key h q = file_key h path)"
| "touches h path (DeleteFile q) = (file_key h q = file_key h path)"
| "touches h path other = False"

fun stored_step :: "host \<Rightarrow> op \<Rightarrow> jsstring set \<Rightarrow> jsstring set" where
  "stored_step h (WriteFile path data) S = insert (file_key h path) S"
| "stored_step h (DeleteFile path) S = S - {file_key h path}"
| "stored_step h other S = S"

definition stored_paths :: "host \<Rightarrow> op list \<Rightarrow> jsstring set" where
  \<comment> \<open>The stored paths of the files that were written and not deleted since.\<close>
  "stored_paths h ops = fold (stored_step h) ops {}"

definition deliveries ::
  "host \<Rightarrow> vsys \<Rightarrow> (timer \<times> jsstring \<times> FileWatcherEventKind) list
     \<Rightarrow> (callback \<times> jsstring \<times> FileWatcherEventKind) list" where
  \<comment> \<open>The calls the given timers make, in order: each one calls every watcher registered
      for its path.\<close>
  "deliveries h st timers =
     concat (map (\<lambda>(timeout, normalizedPath, kind).
                    map (\<lambda>callback. (callback, normalizedPath, kind)) (registered h st normalizedPath))
                 timers)"

definition timers_recorded :: "host \<Rightarrow> vsys \<Rightarrow> bool" where
  \<comment> \<open>Every timer that has not run yet is listed in \<open>watchTimeout\<close> under its path.\<close>
  "timers_recorded h st =
     (\<forall>(timeout, normalizedPath, kind) \<in> set (pending st).
        \<exists>timeouts. fm_get h (watchTimeout st) normalizedPath = Some timeouts \<and> timeout \<in> set timeouts)"

fun watch_of :: "host \<Rightarrow> jsstring \<Rightarrow> op \<Rightarrow> callback list" where
  "watch_of h normalizedPath (WatchFile path callback) =
     (if getCanonicalFileName h (normalizePath h (toAbsolute h path)) = getCanonicalFileName h normalizedPath
      then [callback] else [])"
| "watch_of h normalizedPath other = []"

definition watched :: "host \<Rightarrow> jsstring \<Rightarrow> op list \<Rightarrow> callback list" where
  \<comment> \<open>The callbacks that \<open>watchFile\<close> was called with for the file, in the order of the calls.\<close>
  "watched h normalizedPath ops = concat (map (watch_of h normalizedPath) ops)"

fun closes_path :: "host \<Rightarrow> jsstring \<Rightarrow> op \<Rightarrow> bool" where
  \<comment> \<open>The operation closes a watch handle of the file.\<close>
  "closes_path h normalizedPath (CloseHandle handle) =
     (getCanonicalFileName h (fst handle) = getCanonicalFileName h normalizedPath)"
| "closes_path h normalizedPath other = False"

definition timers_owned :: "host \<Rightarrow> vsys \<Rightarrow> bool" where
  \<comment> \<open>Timer handles are fresh, and a timer listed under a path is a timer of that path.\<close>
  "timers_owned h st =
     ((\<forall>(timeout, normalizedPath, kind) \<in> set (pending st). timeout < nextTimer st)
      \<and> (\<forall>path timeouts. fm_get h (watchTimeout st) path = Some timeouts \<longrightarrow>
            (\<forall>timeout \<in> set timeouts. timeout < nextTimer st
               \<and> (\<forall>normalizedPath kind. (timeout, normalizedPath, kind) \<in> set (pending st) \<longrightarrow>
                     getCanonicalFileName h normalizedPath = getCanonicalFileName h path))))"

definition test_host :: host where
  \<comment> \<open>A case-sensitive host on paths that are already normalized.\<close>
  "test_host =
     \<lparr>currentDirectory = js_str ''/w'',
      isAbsolute = (\<lambda>path. startsWith path (js_str ''/'')),
      join = (\<lambda>a b. a @ js_str ''/'' @ b),
      normalizePath = (\<lambda>path. path),
      getCanonicalFileName = (\<lambda>path. path)\<rparr>"

definition file_a :: jsstring where
  "file_a = js_str ''/w/a.ts''"

definition file_b :: jsstring where
  "file_b = js_str ''/w/b.ts''"

definition two_watchers :: vsys where
  \<comment> \<open>A fresh system after \<open>watchFile(file_a, 1)\<close> and \<open>watchFile(file_a, 2)\<close>.\<close>
  "two_watchers =
     fst (watchFile test_host file_a 2 (fst (watchFile test_host file_a 1 createVirtualTsSystem)))"


section \<open>Properties\<close>

subsection \<open>Svelte file paths\<close>

lemma endsWith_iff_append: "endsWith t s \<longleftrightarrow> (\<exists>x. t = x @ s)"
proof
  assume "endsWith t s"
  then have "t = take (length t - length s) t @ s"
    unfolding endsWith_def by (metis append_take_drop_id)
  then show "\<exists>x. t = x @ s" ..
next
  assume "\<exists>x. t = x @ s"
  then show "endsWith t s" unfolding endsWith_def by auto
qed

lemma virtual_suffix_split: "js_str ''.svelte.ts'' = js_str ''.svelte'' @ js_str ''.ts''"
  by (simp add: js_str_def)

lemma toReal_strip: "toRealSvelteFilePath (x @ js_str ''.ts'') = x"
  by (simp add: toRealSvelteFilePath_def slice_def js_str_def)

lemma real_not_virtual: "\<not> isVirtualSvelteFilePath (x @ js_str ''.svelte'')"
proof
  assume "isVirtualSvelteFilePath (x @ js_str ''.svelte'')"
  then obtain y where "x @ js_str ''.svelte'' = y @ js_str ''.svelte.ts''"
    unfolding isVirtualSvelteFilePath_def endsWith_iff_append by blast
  then have "drop (length (x @ js_str ''.svelte'') - 3) (x @ js_str ''.svelte'')
           = drop (length (y @ js_str ''.svelte.ts'') - 3) (y @ js_str ''.svelte.ts'')"
    by simp
  then show False by (simp add: js_str_def)
qed

lemma ensureReal_virtual:
  assumes "isVirtualSvelteFilePath p"
  shows "\<exists>x. p = x @ js_str ''.svelte.ts'' \<and> ensureRealSvelteFilePath p = x @ js_str ''.svelte''"
proof -
  from assms obtain x where p: "p = x @ js_str ''.svelte.ts''"
    unfolding isVirtualSvelteFilePath_def endsWith_iff_append by blast
  have "toRealSvelteFilePath p = x @ js_str ''.svelte''"
    unfolding p virtual_suffix_split using toReal_strip [of "x @ js_str ''.svelte''"] by simp
  with assms p show ?thesis by (simp add: ensureRealSvelteFilePath_def)
qed

lemma ensureReal_not_virtual: "\<not> isVirtualSvelteFilePath (ensureRealSvelteFilePath p)"
proof (cases "isVirtualSvelteFilePath p")
  case True
  from ensureReal_virtual [OF True] show ?thesis using real_not_virtual by auto
next
  case False
  then show ?thesis by (simp add: ensureRealSvelteFilePath_def)
qed

text \<open>
  C10. \<open>ensureRealSvelteFilePath\<close> is idempotent: its result never ends with the virtual
  suffix \<open>.svelte.ts\<close>, so a second application leaves it alone; and the result for a
  virtual Svelte file path is a Svelte file path.
\<close>

theorem ensureRealSvelteFilePath_idempotent:
  "ensureRealSvelteFilePath (ensureRealSvelteFilePath p) = ensureRealSvelteFilePath p
   \<and> \<not> isVirtualSvelteFilePath (ensureRealSvelteFilePath p)
   \<and> (isVirtualSvelteFilePath p \<longrightarrow> isSvelteFilePath (ensureRealSvelteFilePath p))"
proof (intro conjI impI)
  show "ensureRealSvelteFilePath (ensureRealSvelteFilePath p) = ensureRealSvelteFilePath p"
    using ensureReal_not_virtual [of p]
    by (simp add: ensureRealSvelteFilePath_def [of "ensureRealSvelteFilePath p"])
  show "\<not> isVirtualSvelteFilePath (ensureRealSvelteFilePath p)"
    by (rule ensureReal_not_virtual)
next
  assume "isVirtualSvelteFilePath p"
  from ensureReal_virtual [OF this] show "isSvelteFilePath (ensureRealSvelteFilePath p)"
    unfolding isSvelteFilePath_def endsWith_iff_append by auto
qed

theorem ensureRealSvelteFilePath_idempotent_witness:
  "isVirtualSvelteFilePath (js_str ''a.svelte.ts'')
   \<and> ensureRealSvelteFilePath (js_str ''a.svelte.ts'') = js_str ''a.svelte''
   \<and> ensureRealSvelteFilePath (ensureRealSvelteFilePath (js_str ''a.svelte.ts'')) = js_str ''a.svelte''
   \<and> isSvelteFilePath (ensureRealSvelteFilePath (js_str ''a.svelte.ts''))"
proof -
  have v: "isVirtualSvelteFilePath (js_str ''a.svelte.ts'')" by code_simp
  have e: "ensureRealSvelteFilePath (js_str ''a.svelte.ts'') = js_str ''a.svelte''" by code_simp
  from ensureRealSvelteFilePath_idempotent [of "js_str ''a.svelte.ts''"] v e
  show ?thesis by simp
qed

subsection \<open>Syntax trees: gatherDescendants\<close>

lemma nodes_unfold: "nodes n = n # nodes_list (getChildren n)"
  by (cases n) simp

lemma nodes_self: "n \<in> set (nodes n)"
  by (simp add: nodes_unfold [of n])

lemma gather_append:
  "gatherDescendants n P dest = dest @ gatherDescendants n P []"
  "gatherDescendants_children cs P dest = dest @ gatherDescendants_children cs P []"
proof (induction n and cs arbitrary: dest and dest rule: nodes_nodes_list.induct)
  case (1 i s e children)
  from "1.IH" [of dest] show ?case by simp
next
  case 2
  show ?case by simp
next
  case (3 child rest)
  have "gatherDescendants_children (child # rest) P dest
        = gatherDescendants child P dest @ gatherDescendants_children rest P []"
    using "3.IH"(2) [of "gatherDescendants child P dest"] by simp
  also have "\<dots> = dest @ gatherDescendants child P [] @ gatherDescendants_children rest P []"
    using "3.IH"(1) [of dest] by simp
  also have "gatherDescendants child P [] @ gatherDescendants_children rest P []
        = gatherDescendants_children (child # rest) P []"
    using "3.IH"(2) [of "gatherDescendants child P []"] by simp
  finally show ?case .
qed

lemma gather_children_Cons:
  "gatherDescendants_children (child # rest) P [] =
     gatherDescendants child P [] @ gatherDescendants_children rest P []"
  using gather_append(2) [of rest P "gatherDescendants child P []"] by simp

lemma gather_sound:
  "m \<in> set (gatherDescendants n P []) \<Longrightarrow> P m \<and> m \<in> set (nodes n)"
  "m \<in> set (gatherDescendants_children cs P []) \<Longrightarrow> P m \<and> m \<in> set (nodes_list cs)"
proof (induction n and cs rule: nodes_nodes_list.induct)
  case (1 i s e children)
  then show ?case by (cases "P (Node i s e children)") auto
next
  case 2
  then show ?case by simp
next
  case (3 child rest)
  from "3.prems" have "m \<in> set (gatherDescendants child P []) \<union> set (gatherDescendants_children rest P [])"
    by (simp only: gather_children_Cons set_append)
  with "3.IH" show ?case by auto
qed

lemma nodes_size:
  "m \<in> set (nodes n) \<Longrightarrow> size m \<le> size n"
  "m \<in> set (nodes_list cs) \<Longrightarrow> size m \<le> size_list size cs"
proof (induction n and cs rule: nodes_nodes_list.induct)
  case (1 i s e children)
  then show ?case by auto
next
  case 2
  then show ?case by simp
next
  case (3 child rest)
  then show ?case by auto
qed

lemma not_own_descendant: "n \<notin> set (descendants n)"
proof
  assume "n \<in> set (descendants n)"
  then have "size n \<le> size_list size (getChildren n)"
    unfolding descendants_def by (rule nodes_size(2))
  then show False by (cases n) simp
qed

lemma nodes_trans:
  "a \<in> set (nodes n) \<Longrightarrow> set (nodes a) \<subseteq> set (nodes n)"
  "a \<in> set (nodes_list cs) \<Longrightarrow> set (nodes a) \<subseteq> set (nodes_list cs)"
proof (induction n and cs rule: nodes_nodes_list.induct)
  case (1 i s e children)
  then show ?case by (cases "a = Node i s e children") auto
next
  case 2
  then show ?case by simp
next
  case (3 child rest)
  then show ?case by auto
qed

lemma descendants_in_nodes: "set (descendants a) \<subseteq> set (nodes a)"
  by (auto simp: descendants_def nodes_unfold [of a])

lemma gather_non_nested:
  "distinct (nodes n) \<Longrightarrow> a \<in> set (gatherDescendants n P []) \<Longrightarrow>
     b \<in> set (gatherDescendants n P []) \<Longrightarrow> b \<notin> set (descendants a)"
  "distinct (nodes_list cs) \<Longrightarrow> a \<in> set (gatherDescendants_children cs P []) \<Longrightarrow>
     b \<in> set (gatherDescendants_children cs P []) \<Longrightarrow> b \<notin> set (descendants a)"
proof (induction n and cs rule: nodes_nodes_list.induct)
  case (1 i s e children)
  show ?case
  proof (cases "P (Node i s e children)")
    case True
    with "1.prems" have "a = Node i s e children" "b = a" by simp_all
    then show ?thesis using not_own_descendant [of a] by simp
  next
    case False
    with "1.prems" "1.IH" show ?thesis by simp
  qed
next
  case 2
  then show ?case by simp
next
  case (3 child rest)
  let ?L = "gatherDescendants child P []" and ?R = "gatherDescendants_children rest P []"
  from "3.prems"(1) have d1: "distinct (nodes child)" and d2: "distinct (nodes_list rest)"
    and disj: "set (nodes child) \<inter> set (nodes_list rest) = {}" by simp_all
  from "3.prems"(2,3) have ab: "a \<in> set ?L \<union> set ?R" "b \<in> set ?L \<union> set ?R"
    by (simp_all only: gather_children_Cons set_append)
  show ?case
  proof (cases "a \<in> set ?L")
    case aL: True
    show ?thesis
    proof (cases "b \<in> set ?L")
      case True
      from "3.IH"(1) [OF d1 aL True] show ?thesis .
    next
      case False
      with ab have "b \<in> set ?R" by simp
      then have bR: "b \<in> set (nodes_list rest)" using gather_sound(2) by blast
      from aL have "a \<in> set (nodes child)" using gather_sound(1) by blast
      then have "set (descendants a) \<subseteq> set (nodes child)"
        using nodes_trans(1) descendants_in_nodes by blast
      with bR disj show ?thesis by blast
    qed
  next
    case False
    with ab have aR: "a \<in> set ?R" by simp
    show ?thesis
    proof (cases "b \<in> set ?R")
      case True
      from "3.IH"(2) [OF d2 aR True] show ?thesis .
    next
      case False
      with ab have "b \<in> set ?L" by simp
      then have bL: "b \<in> set (nodes child)" using gather_sound(1) by blast
      from aR have "a \<in> set (nodes_list rest)" using gather_sound(2) by blast
      then have "set (descendants a) \<subseteq> set (nodes_list rest)"
        using nodes_trans(2) descendants_in_nodes by blast
      with bL disj show ?thesis by blast
    qed
  qed
qed

text \<open>
  C9. Every node \<open>gatherDescendants\<close> returns satisfies the predicate, and no returned
  node is a descendant of another returned one: a matching node's subtree is not descended
  into, and the root is returned alone when it matches. Nodes are objects, so the nodes of
  one tree are pairwise distinct values.
\<close>

theorem gatherDescendants_non_nested:
  assumes "distinct (nodes root)"
  shows "(\<forall>n \<in> set (gatherDescendants root predicate []). predicate n \<and> n \<in> set (nodes root))
       \<and> (\<forall>a \<in> set (gatherDescendants root predicate []).
            \<forall>b \<in> set (gatherDescendants root predicate []). b \<notin> set (descendants a))
       \<and> (predicate root \<longrightarrow> gatherDescendants root predicate [] = [root])"
proof (intro conjI ballI impI)
  fix n assume "n \<in> set (gatherDescendants root predicate [])"
  then show "predicate n" "n \<in> set (nodes root)" using gather_sound(1) by blast+
next
  fix a b
  assume "a \<in> set (gatherDescendants root predicate [])" "b \<in> set (gatherDescendants root predicate [])"
  with assms show "b \<notin> set (descendants a)" by (rule gather_non_nested(1))
next
  assume "predicate root"
  then show "gatherDescendants root predicate [] = [root]" by (cases root) simp
qed

theorem gatherDescendants_non_nested_witness:
  "distinct (nodes nested_tree)
   \<and> gatherDescendants nested_tree (\<lambda>n. getStart n = 5) [] = [getChildren nested_tree ! 1]
   \<and> getStart (getChildren nested_tree ! 1) = 5
   \<and> getChildren nested_tree ! 1 \<notin> set (descendants (getChildren nested_tree ! 1))
   \<and> gatherDescendants nested_tree (\<lambda>n. getStart n = 0) [] = [nested_tree]"
proof -
  have d: "distinct (nodes nested_tree)" by code_simp
  have g: "gatherDescendants nested_tree (\<lambda>n. getStart n = 5) [] = [getChildren nested_tree ! 1]"
    by code_simp
  have r: "(\<lambda>n. getStart n = 0) nested_tree" by code_simp
  from gatherDescendants_non_nested [OF d, of "\<lambda>n. getStart n = 0"] r
  have "gatherDescendants nested_tree (\<lambda>n. getStart n = 0) [] = [nested_tree]" by blast
  moreover from gatherDescendants_non_nested [OF d, of "\<lambda>n. getStart n = 5"]
  have "getStart (getChildren nested_tree ! 1) = 5"
    and "getChildren nested_tree ! 1 \<notin> set (descendants (getChildren nested_tree ! 1))"
    unfolding g by simp_all
  ultimately show ?thesis using d g by (intro conjI)
qed

subsection \<open>Syntax trees: findNodeAtSpan\<close>

lemma nodes_bounds:
  "well_formed n \<Longrightarrow> m \<in> set (nodes n) \<Longrightarrow> getStart n \<le> getStart m \<and> getEnd m \<le> getEnd n \<and> getStart m \<le> getEnd m"
  "(\<forall>c \<in> set cs. lo \<le> getStart c \<and> getEnd c \<le> hi \<and> well_formed c) \<Longrightarrow> m \<in> set (nodes_list cs)
     \<Longrightarrow> lo \<le> getStart m \<and> getEnd m \<le> hi \<and> getStart m \<le> getEnd m"
proof (induction n and cs arbitrary: m and m lo hi rule: nodes_nodes_list.induct)
  case (1 i s e children)
  show ?case
  proof (cases "m = Node i s e children")
    case True
    with "1.prems" show ?thesis by simp
  next
    case False
    with "1.prems" have m: "m \<in> set (nodes_list children)" by simp
    from "1.prems" have "\<forall>c \<in> set children. s \<le> getStart c \<and> getEnd c \<le> e \<and> well_formed c" by simp
    from "1.IH" [OF this m] show ?thesis by simp
  qed
next
  case 2
  then show ?case by simp
next
  case (3 child rest)
  from "3.prems" consider "m \<in> set (nodes child)" | "m \<in> set (nodes_list rest)" by auto
  then show ?case
  proof cases
    case 1
    from "3.prems" have "well_formed child" "lo \<le> getStart child" "getEnd child \<le> hi" by simp_all
    with "3.IH"(1) [OF \<open>well_formed child\<close> 1] show ?thesis by linarith
  next
    case 2
    from "3.prems" have "\<forall>c \<in> set rest. lo \<le> getStart c \<and> getEnd c \<le> hi \<and> well_formed c" by simp
    from "3.IH"(2) [OF this 2] show ?thesis .
  qed
qed

lemma find_append_case:
  "List.find P (xs @ ys) = (case List.find P xs of None \<Rightarrow> List.find P ys | Some x \<Rightarrow> Some x)"
  by (induction xs) auto

lemma ordered_siblings_tail: "ordered_siblings (c # cs) \<Longrightarrow> ordered_siblings cs"
  by (cases cs) simp_all

lemma siblings_start:
  "ordered_siblings (c # cs) \<Longrightarrow> \<forall>d \<in> set (c # cs). well_formed d \<Longrightarrow> m \<in> set (nodes_list (c # cs))
     \<Longrightarrow> getStart c \<le> getStart m"
proof (induction cs arbitrary: c)
  case Nil
  then show ?case using nodes_bounds(1) [of c m] by simp
next
  case (Cons d ds)
  from Cons.prems(3) consider "m \<in> set (nodes c)" | "m \<in> set (nodes_list (d # ds))" by auto
  then show ?case
  proof cases
    case 1
    with Cons.prems(2) show ?thesis using nodes_bounds(1) [of c m] by simp
  next
    case 2
    from Cons.prems have "ordered_siblings (d # ds)" "\<forall>x \<in> set (d # ds). well_formed x" by simp_all
    from Cons.IH [OF this 2] have "getStart d \<le> getStart m" .
    moreover from Cons.prems(1) have "getEnd c \<le> getStart d" by simp
    moreover from Cons.prems(2) have "getStart c \<le> getEnd c"
      using nodes_bounds(1) [of c c] nodes_self [of c] by simp
    ultimately show ?thesis by linarith
  qed
qed

lemma findNodeAtSpan_find:
  "well_formed n \<Longrightarrow> 0 < span_length sp \<Longrightarrow>
     findNodeAtSpan n sp pred = List.find (exact_match sp pred) (nodes_list (getChildren n))"
  "ordered_siblings cs \<Longrightarrow> \<forall>c \<in> set cs. well_formed c \<Longrightarrow> 0 < span_length sp \<Longrightarrow>
     findNodeAtSpan_children cs sp pred = List.find (exact_match sp pred) (nodes_list cs)"
proof (induction n sp pred and cs sp pred rule: findNodeAtSpan_findNodeAtSpan_children.induct)
  case (1 i s e children sp predicate)
  then show ?case by simp
next
  case (2 sp predicate)
  then show ?case by simp
next
  case (3 child rest sp predicate)
  let ?M = "exact_match sp predicate"
  have wf_child: "well_formed child" and wf_rest: "\<forall>c \<in> set rest. well_formed c"
    and ord_rest: "ordered_siblings rest"
    using "3.prems" ordered_siblings_tail [of child rest] by simp_all
  have unfold: "List.find ?M (nodes_list (child # rest)) =
      (case List.find ?M (nodes child) of None \<Rightarrow> List.find ?M (nodes_list rest) | Some x \<Rightarrow> Some x)"
    by (simp add: find_append_case)
  show ?case
  proof (cases "span_start sp + span_length sp \<le> getStart child")
    case True
    have "\<forall>m \<in> set (nodes_list (child # rest)). \<not> ?M m"
    proof
      fix m assume "m \<in> set (nodes_list (child # rest))"
      from siblings_start [OF "3.prems"(1,2) this] True "3.prems"(3)
      show "\<not> ?M m" by (simp add: exact_match_def)
    qed
    then have "List.find ?M (nodes_list (child # rest)) = None"
      by (simp only: find_None_iff) blast
    with True show ?thesis by simp
  next
    case notBefore: False
    show ?thesis
    proof (cases "span_start sp \<ge> getEnd child")
      case True
      have "\<forall>m \<in> set (nodes child). \<not> ?M m"
      proof
        fix m assume "m \<in> set (nodes child)"
        from nodes_bounds(1) [OF wf_child this] True "3.prems"(3)
        show "\<not> ?M m" by (simp add: exact_match_def)
      qed
      then have "List.find ?M (nodes child) = None"
        by (simp only: find_None_iff) blast
      with unfold have "List.find ?M (nodes_list (child # rest)) = List.find ?M (nodes_list rest)"
        by simp
      moreover have "findNodeAtSpan_children rest sp predicate = List.find ?M (nodes_list rest)"
        using "3.IH"(1) [OF notBefore True ord_rest wf_rest "3.prems"(3)] .
      ultimately show ?thesis using notBefore True by simp
    next
      case notAfter: False
      show ?thesis
      proof (cases "?M child")
        case True
        then have "List.find ?M (nodes child) = Some child"
          by (simp add: nodes_unfold [of child])
        with unfold have "List.find ?M (nodes_list (child # rest)) = Some child" by simp
        moreover from True have "findNodeAtSpan_children (child # rest) sp predicate = Some child"
          using notBefore notAfter by (cases predicate) (simp_all add: exact_match_def)
        ultimately show ?thesis by simp
      next
        case False
        then have c1: "\<not> (span_start sp = getStart child \<and> span_start sp + span_length sp = getEnd child
              \<and> predicate = None)"
          and c2: "\<not> (span_start sp = getStart child \<and> span_start sp + span_length sp = getEnd child
              \<and> (case predicate of None \<Rightarrow> False | Some p \<Rightarrow> p child))"
          by (auto simp: exact_match_def split: option.splits)
        have inner: "findNodeAtSpan child sp predicate = List.find ?M (nodes_list (getChildren child))"
          using "3.IH"(2) [OF notBefore notAfter c1 c2 wf_child "3.prems"(3)] .
        have fchild: "List.find ?M (nodes child) = findNodeAtSpan child sp predicate"
          using False inner by (simp add: nodes_unfold [of child])
        have step: "findNodeAtSpan_children (child # rest) sp predicate =
            (case findNodeAtSpan child sp predicate of
               Some foundInChildren \<Rightarrow> Some foundInChildren
             | None \<Rightarrow> findNodeAtSpan_children rest sp predicate)"
          using notBefore notAfter c1 c2
          by (simp only: findNodeAtSpan_children.simps(2) if_False)
        show ?thesis
        proof (cases "findNodeAtSpan child sp predicate")
          case None
          have "findNodeAtSpan_children rest sp predicate = List.find ?M (nodes_list rest)"
            using "3.IH"(3) [OF notBefore notAfter c1 c2 None ord_rest wf_rest "3.prems"(3)] .
          with None fchild show ?thesis by (simp only: step unfold option.case)
        next
          case (Some found)
          with fchild show ?thesis by (simp only: step unfold option.case)
        qed
      qed
    qed
  qed
qed

text \<open>
  C2, as stated, fails: in \<open>nested_tree\<close> the node 2 and its child 3 both cover [5,10)
  exactly; \<open>findNodeAtSpan\<close> with that span and no predicate returns node 2, the outer
  one, although node 3 is deeper and matches as well.
\<close>

theorem findNodeAtSpan_not_deepest:
  "well_formed nested_tree
   \<and> findNodeAtSpan nested_tree \<lparr>span_start = 5, span_length = 5\<rparr> None
       = Some (Node 2 5 10 [Node 3 5 10 [Node 4 5 7 [], Node 5 8 10 []]])
   \<and> Node 3 5 10 [Node 4 5 7 [], Node 5 8 10 []]
       \<in> set (descendants (Node 2 5 10 [Node 3 5 10 [Node 4 5 7 [], Node 5 8 10 []]]))
   \<and> exact_match \<lparr>span_start = 5, span_length = 5\<rparr> None (Node 3 5 10 [Node 4 5 7 [], Node 5 8 10 []])"
  by code_simp

text \<open>
  C2, amended. On a tree of the compiler's shape and for a span of positive length,
  \<open>findNodeAtSpan\<close> returns the first proper descendant of the root, in document order,
  whose range is exactly the span and which the predicate (when given) accepts; in that
  order a node comes before its own descendants, so of nested nodes with the same range the
  outer one is returned. It returns nothing exactly when no proper descendant matches. In
  particular, when some descendant covers the span exactly and no predicate is given, the
  result is a descendant with exactly that range.
\<close>

theorem findNodeAtSpan_first_exact_match:
  assumes "well_formed root" and "0 < span_length sp"
  shows "findNodeAtSpan root sp predicate = List.find (exact_match sp predicate) (descendants root)
       \<and> (findNodeAtSpan root sp predicate = None
            \<longleftrightarrow> (\<forall>n \<in> set (descendants root). \<not> exact_match sp predicate n))
       \<and> ((\<exists>n \<in> set (descendants root). exact_match sp None n)
            \<longrightarrow> (\<exists>m. findNodeAtSpan root sp None = Some m \<and> m \<in> set (descendants root)
                    \<and> getStart m = span_start sp \<and> getEnd m = span_start sp + span_length sp))"
proof -
  have eq: "findNodeAtSpan root sp p = List.find (exact_match sp p) (descendants root)" for p
    unfolding descendants_def using assms by (rule findNodeAtSpan_find(1))
  have none: "findNodeAtSpan root sp predicate = None
      \<longleftrightarrow> (\<forall>n \<in> set (descendants root). \<not> exact_match sp predicate n)"
    unfolding eq find_None_iff by blast
  have part: "\<exists>m. findNodeAtSpan root sp None = Some m \<and> m \<in> set (descendants root)
        \<and> getStart m = span_start sp \<and> getEnd m = span_start sp + span_length sp"
    if "\<exists>n \<in> set (descendants root). exact_match sp None n"
  proof -
    from that have "List.find (exact_match sp None) (descendants root) \<noteq> None"
      unfolding find_None_iff by blast
    then obtain m where m: "List.find (exact_match sp None) (descendants root) = Some m" by blast
    then have "exact_match sp None m" "m \<in> set (descendants root)"
      unfolding find_Some_iff by auto
    with m show ?thesis unfolding eq by (simp add: exact_match_def)
  qed
  from eq none part show ?thesis by blast
qed

theorem findNodeAtSpan_first_exact_match_witness:
  "well_formed nested_tree \<and> (0::int) < span_length \<lparr>span_start = 5, span_length = 5\<rparr>
   \<and> (\<exists>n \<in> set (descendants nested_tree). exact_match \<lparr>span_start = 5, span_length = 5\<rparr> None n)
   \<and> findNodeAtSpan nested_tree \<lparr>span_start = 5, span_length = 5\<rparr> None
       = List.find (exact_match \<lparr>span_start = 5, span_length = 5\<rparr> None) (descendants nested_tree)
   \<and> (\<exists>m. findNodeAtSpan nested_tree \<lparr>span_start = 5, span_length = 5\<rparr> None = Some m
          \<and> getStart m = 5 \<and> getEnd m = 10)"
proof -
  let ?sp = "\<lparr>span_start = 5, span_length = 5\<rparr>"
  have w: "well_formed nested_tree" by code_simp
  have l: "0 < span_length ?sp" by simp
  have x: "\<exists>n \<in> set (descendants nested_tree). exact_match ?sp None n" by code_simp
  from findNodeAtSpan_first_exact_match [OF w l, of None] x w l
  show ?thesis by auto
qed

subsection \<open>Module presence probe\<close>

text \<open>
  C7, as stated, fails: when \<open>compilerOptions.configFilePath\<close> is not a string, no
  resolution is attempted and the result is \<open>true\<close>, also for a module that is absent.
\<close>

theorem hasNodeModule_without_config_path:
  "hasNodeModule absent_everywhere \<lparr>configFilePath = None\<rparr> (js_str ''svelte'') = Inr (JBool True)"
  by (simp add: hasNodeModule_def hasNodeModule_try_def)

text \<open>
  C7, amended. \<open>hasNodeModule\<close> never throws. When \<open>configFilePath\<close> is not a string it
  returns \<open>true\<close> without resolving. When it is a string: if the module resolves from
  that path, the result is the resolved file name (a string, truthy when not empty); if
  resolution throws, the result is \<open>true\<close> when the error's code is
  \<open>ERR_PACKAGE_PATH_NOT_EXPORTED\<close> and \<open>false\<close> for every other thrown value.
\<close>

theorem hasNodeModule_cases:
  "(\<exists>v. hasNodeModule resolve compilerOptions module = Inr v)
   \<and> (configFilePath compilerOptions = None \<longrightarrow>
        hasNodeModule resolve compilerOptions module = Inr (JBool True))
   \<and> (\<forall>path filename. configFilePath compilerOptions = Some path \<and> resolve module [path] = Inr filename \<longrightarrow>
        hasNodeModule resolve compilerOptions module = Inr (JString filename))
   \<and> (\<forall>path e. configFilePath compilerOptions = Some path \<and> resolve module [path] = Inl e \<longrightarrow>
        hasNodeModule resolve compilerOptions module
          = Inr (JBool (error_code e = Some (js_str ''ERR_PACKAGE_PATH_NOT_EXPORTED''))))"
  by (auto simp: hasNodeModule_def hasNodeModule_try_def split: option.splits sum.splits)

theorem hasNodeModule_cases_witness:
  "hasNodeModule sveltekit_resolver \<lparr>configFilePath = Some (js_str ''/w/tsconfig.json'')\<rparr> (js_str ''svelte'')
     = Inr (JString (js_str ''/w/node_modules/svelte/index.js''))
   \<and> truthy (JString (js_str ''/w/node_modules/svelte/index.js''))
   \<and> hasNodeModule sveltekit_resolver \<lparr>configFilePath = Some (js_str ''/w/tsconfig.json'')\<rparr> (js_str ''@sveltejs/kit'')
     = Inr (JBool True)
   \<and> hasNodeModule sveltekit_resolver \<lparr>configFilePath = Some (js_str ''/w/tsconfig.json'')\<rparr> (js_str ''nope'')
     = Inr (JBool False)
   \<and> hasNodeModule sveltekit_resolver \<lparr>configFilePath = None\<rparr> (js_str ''nope'') = Inr (JBool True)"
proof -
  let ?o = "\<lparr>configFilePath = Some (js_str ''/w/tsconfig.json'')\<rparr>"
  have c: "configFilePath ?o = Some (js_str ''/w/tsconfig.json'')" by simp
  have r1: "sveltekit_resolver (js_str ''svelte'') [js_str ''/w/tsconfig.json'']
      = Inr (js_str ''/w/node_modules/svelte/index.js'')"
    by code_simp
  have r2: "sveltekit_resolver (js_str ''@sveltejs/kit'') [js_str ''/w/tsconfig.json'']
      = Inl (ErrorObject (Some (js_str ''ERR_PACKAGE_PATH_NOT_EXPORTED'')))"
    by code_simp
  have r3: "sveltekit_resolver (js_str ''nope'') [js_str ''/w/tsconfig.json'']
      = Inl (ErrorObject (Some (js_str ''MODULE_NOT_FOUND'')))"
    by code_simp
  have ne: "js_str ''MODULE_NOT_FOUND'' \<noteq> js_str ''ERR_PACKAGE_PATH_NOT_EXPORTED''"
    by code_simp
  have t: "truthy (JString (js_str ''/w/node_modules/svelte/index.js''))"
    by code_simp
  have n: "configFilePath \<lparr>configFilePath = None\<rparr> = None" by simp
  have a1: "hasNodeModule sveltekit_resolver ?o (js_str ''svelte'')
     = Inr (JString (js_str ''/w/node_modules/svelte/index.js''))"
    using hasNodeModule_cases [of sveltekit_resolver ?o "js_str ''svelte''",
        THEN conjunct2, THEN conjunct2, THEN conjunct1, rule_format,
        of "js_str ''/w/tsconfig.json''" "js_str ''/w/node_modules/svelte/index.js''"] c r1
    by simp
  have a2: "hasNodeModule sveltekit_resolver ?o (js_str ''@sveltejs/kit'') = Inr (JBool True)"
    using hasNodeModule_cases [of sveltekit_resolver ?o "js_str ''@sveltejs/kit''",
        THEN conjunct2, THEN conjunct2, THEN conjunct2, rule_format,
        of "js_str ''/w/tsconfig.json''" "ErrorObject (Some (js_str ''ERR_PACKAGE_PATH_NOT_EXPORTED''))"] c r2
    by simp
  have a3: "hasNodeModule sveltekit_resolver ?o (js_str ''nope'') = Inr (JBool False)"
    using hasNodeModule_cases [of sveltekit_resolver ?o "js_str ''nope''",
        THEN conjunct2, THEN conjunct2, THEN conjunct2, rule_format,
        of "js_str ''/w/tsconfig.json''" "ErrorObject (Some (js_str ''MODULE_NOT_FOUND''))"] c r3 ne
    by simp
  have a4: "hasNodeModule sveltekit_resolver \<lparr>configFilePath = None\<rparr> (js_str ''nope'') = Inr (JBool True)"
    using hasNodeModule_cases [of sveltekit_resolver "\<lparr>configFilePath = None\<rparr>" "js_str ''nope''",
        THEN conjunct2, THEN conjunct1] n
    by simp
  from a1 a2 a3 a4 t show ?thesis by (intro conjI)
qed

subsection \<open>Generated code regions\<close>

text \<open>
  C5 at the input \<open>last_line_text\<close>, start 35, end 36: the span is the \<open>x\<close> on the
  last line, which has no line break after it. \<open>indexOf\<close> returns -1 for the line end,
  \<open>substring(end, -1)\<close> is the text before \<open>end\<close>, and the close marker of the
  first line is found there: the result is \<open>true\<close> although no close marker occurs
  from \<open>end\<close> on.
\<close>

theorem isInGeneratedCode_last_line:
  "isInGeneratedCode last_line_text 35 36
   \<and> indexOf last_line_text newline 36 = - 1
   \<and> \<not> js_includes (slice last_line_text 36 (int (length last_line_text))) ignore_end"
  by code_simp

subsection \<open>The virtual system: what each operation changes\<close>

lemma triggerWatch_fields [simp]:
  "virtualFs (triggerWatch h p k st) = virtualFs st"
  "watchers (triggerWatch h p k st) = watchers st"
  "calls (triggerWatch h p k st) = calls st"
  "pending (triggerWatch h p k st) = pending st @ [(nextTimer st, p, k)]"
  by (simp_all add: triggerWatch_def Let_def)

lemma registered_cong: "watchers st' = watchers st \<Longrightarrow> registered h st' = registered h st"
  by (rule ext) (simp add: registered_def)

lemma deliveries_cong: "watchers st' = watchers st \<Longrightarrow> deliveries h st' = deliveries h st"
  using registered_cong [of st' st h] by (simp add: deliveries_def fun_eq_iff)

lemma writeFile_fields [simp]:
  "watchers (writeFile h path data st) = watchers st"
  "calls (writeFile h path data st) = calls st"
  "virtualFs (writeFile h path data st)
     = fm_set h (virtualFs st) (normalizePath h (toAbsolute h path)) data"
  "pending (writeFile h path data st)
     = pending st @ [(nextTimer st, normalizePath h (toAbsolute h path),
                      if fileExists h path st then Changed else Created)]"
  by (simp_all add: writeFile_def Let_def fileExists_def)

lemma deleteFile_fields [simp]:
  "watchers (deleteFile h path st) = watchers st"
  "calls (deleteFile h path st) = calls st"
  "virtualFs (deleteFile h path st)
     = fm_delete h (virtualFs st) (normalizePath h (toAbsolute h path))"
  "pending (deleteFile h path st)
     = (if fileExists h path st
        then pending st @ [(nextTimer st, normalizePath h (toAbsolute h path), Deleted)]
        else pending st)"
  by (simp_all add: deleteFile_def Let_def fileExists_def)

lemma watchFile_fields [simp]:
  "virtualFs (fst (watchFile h path cb st)) = virtualFs st"
  "calls (fst (watchFile h path cb st)) = calls st"
  "pending (fst (watchFile h path cb st)) = pending st"
  "watchTimeout (fst (watchFile h path cb st)) = watchTimeout st"
  by (simp_all add: watchFile_def Let_def)

lemma fold_clearTimeout_fields [simp]:
  "virtualFs (fold clearTimeout ts st) = virtualFs st"
  "watchers (fold clearTimeout ts st) = watchers st"
  "watchTimeout (fold clearTimeout ts st) = watchTimeout st"
  "calls (fold clearTimeout ts st) = calls st"
  "pending (fold clearTimeout ts st) = filter (\<lambda>x. fst x \<notin> set ts) (pending st)"
  by (induction ts arbitrary: st) (simp_all add: clearTimeout_def case_prod_beta)

lemma close_fields [simp]:
  "virtualFs (close h handle st) = virtualFs st"
  "calls (close h handle st) = calls st"
  "watchTimeout (close h handle st) = watchTimeout st"
  "pending (close h handle st)
     = (case fm_get h (watchTimeout st) (fst handle) of
          None \<Rightarrow> pending st
        | Some timeouts \<Rightarrow> filter (\<lambda>x. fst x \<notin> set timeouts) (pending st))"
  by (simp_all add: close_def Let_def split: option.splits)

lemma fire_fields [simp]:
  "virtualFs (fire h p k st) = virtualFs st"
  "watchers (fire h p k st) = watchers st"
  "watchTimeout (fire h p k st) = watchTimeout st"
  "pending (fire h p k st) = pending st"
  "calls (fire h p k st) = calls st @ map (\<lambda>callback. (callback, p, k)) (registered h st p)"
  by (simp_all add: fire_def registered_def split: option.splits)

lemma tick_fields [simp]:
  "virtualFs (tick h st) = virtualFs st"
  "watchers (tick h st) = watchers st"
  "watchTimeout (tick h st) = watchTimeout st"
  "pending (tick h st) = tl (pending st)"
  by (simp_all add: tick_def split: list.splits)

lemma calls_tick:
  "calls (tick h st) = calls st @ deliveries h st (take 1 (pending st))"
  by (cases "pending st") (auto simp: tick_def deliveries_def registered_def fire_def split: option.splits)

lemma virtualFs_runTimers [simp]: "virtualFs (runTimers h st) = virtualFs st"
proof (induction h st rule: runTimers.induct)
  case (1 h st)
  then show ?case by (subst runTimers.simps) simp
qed

lemma watchers_runTimers [simp]: "watchers (runTimers h st) = watchers st"
proof (induction h st rule: runTimers.induct)
  case (1 h st)
  then show ?case by (subst runTimers.simps) simp
qed

lemma pending_runTimers [simp]: "pending (runTimers h st) = []"
proof (induction h st rule: runTimers.induct)
  case (1 h st)
  then show ?case by (subst runTimers.simps) simp
qed

lemma calls_runTimers: "calls (runTimers h st) = calls st @ deliveries h st (pending st)"
proof (induction h st rule: runTimers.induct)
  case (1 h st)
  show ?case
  proof (cases "pending st")
    case Nil
    then show ?thesis by (subst runTimers.simps) (simp add: deliveries_def)
  next
    case (Cons x rest)
    then have ne: "pending st \<noteq> []" by simp
    have "calls (runTimers h st) = calls (runTimers h (tick h st))"
      using ne by (subst runTimers.simps) simp
    also have "\<dots> = calls (tick h st) @ deliveries h (tick h st) (pending (tick h st))"
      using "1.IH" [OF ne] .
    also have "deliveries h (tick h st) = deliveries h st"
      by (rule deliveries_cong) simp
    also have "calls (tick h st) = calls st @ deliveries h st [x]"
      using Cons by (simp add: calls_tick)
    finally show ?thesis using Cons by (simp add: deliveries_def)
  qed
qed

lemma deliveries_append:
  "deliveries h st (xs @ ys) = deliveries h st xs @ deliveries h st ys"
  by (simp add: deliveries_def)

lemma deliveries_single:
  "deliveries h st [(t, p, k)] = map (\<lambda>callback. (callback, p, k)) (registered h st p)"
  by (simp add: deliveries_def)


lemma fileExists_after_writeFile: "fileExists h path (writeFile h path data st)"
  by (simp add: fileExists_def fm_has_def fm_set_def update_conv')

lemma fileExists_after_deleteFile: "\<not> fileExists h path (deleteFile h path st)"
  by (simp add: fileExists_def fm_has_def fm_delete_def delete_conv')

lemma calls_after_writeFile:
  "calls (runTimers h (writeFile h path data st))
     = calls (runTimers h st)
       @ map (\<lambda>callback. (callback, normalizePath h (toAbsolute h path),
                            if fileExists h path st then Changed else Created))
             (registered h st (normalizePath h (toAbsolute h path)))"
proof -
  have "deliveries h (writeFile h path data st) = deliveries h st"
    by (rule deliveries_cong) simp
  then show ?thesis
    by (simp add: calls_runTimers deliveries_append deliveries_single)
qed

lemma calls_after_deleteFile:
  "calls (runTimers h (deleteFile h path st))
     = calls (runTimers h st)
       @ (if fileExists h path st
          then map (\<lambda>callback. (callback, normalizePath h (toAbsolute h path), Deleted))
                   (registered h st (normalizePath h (toAbsolute h path)))
          else [])"
proof -
  have "deliveries h (deleteFile h path st) = deliveries h st"
    by (rule deliveries_cong) simp
  then show ?thesis
    by (simp add: calls_runTimers deliveries_append deliveries_single)
qed

subsection \<open>Notification kinds\<close>

text \<open>
  C4. A write to a path that is not in the file table (as for the first write: a fresh
  system has no file) schedules a notification of kind \<open>Created\<close>, a write to a path
  that exists one of kind \<open>Changed\<close>, a delete of a path that exists one of kind
  \<open>Deleted\<close>; when the timers run, it is delivered, after the notifications already
  pending, to every watcher registered for the path. A delete of a path that does not exist
  schedules nothing and delivers nothing. After a write the path exists, after a delete it
  does not.
\<close>

theorem notification_kinds:
  "(\<not> fileExists h path st \<longrightarrow>
      calls (runTimers h (writeFile h path data st))
        = calls (runTimers h st)
          @ map (\<lambda>callback. (callback, normalizePath h (toAbsolute h path), Created))
                (registered h st (normalizePath h (toAbsolute h path))))
   \<and> (fileExists h path st \<longrightarrow>
      calls (runTimers h (writeFile h path data st))
        = calls (runTimers h st)
          @ map (\<lambda>callback. (callback, normalizePath h (toAbsolute h path), Changed))
                (registered h st (normalizePath h (toAbsolute h path))))
   \<and> (fileExists h path st \<longrightarrow>
      calls (runTimers h (deleteFile h path st))
        = calls (runTimers h st)
          @ map (\<lambda>callback. (callback, normalizePath h (toAbsolute h path), Deleted))
                (registered h st (normalizePath h (toAbsolute h path))))
   \<and> (\<not> fileExists h path st \<longrightarrow>
      pending (deleteFile h path st) = pending st
      \<and> calls (runTimers h (deleteFile h path st)) = calls (runTimers h st))
   \<and> \<not> fileExists h path createVirtualTsSystem
   \<and> fileExists h path (writeFile h path data st)
   \<and> \<not> fileExists h path (deleteFile h path st)"
proof -
  have "\<not> fileExists h path createVirtualTsSystem"
    by (simp add: fileExists_def fm_has_def createVirtualTsSystem_def)
  then show ?thesis
    using fileExists_after_writeFile [of h path data st] fileExists_after_deleteFile [of h path st]
    by (simp add: calls_after_writeFile calls_after_deleteFile)
qed


theorem notification_kinds_witness:
  "\<not> fileExists test_host file_a two_watchers
   \<and> calls (runTimers test_host (writeFile test_host file_a [] two_watchers))
       = [(1, file_a, Created), (2, file_a, Created)]
   \<and> fileExists test_host file_a (writeFile test_host file_a [] two_watchers)
   \<and> calls (runTimers test_host (writeFile test_host file_a [1] (writeFile test_host file_a [] two_watchers)))
       = [(1, file_a, Created), (2, file_a, Created), (1, file_a, Changed), (2, file_a, Changed)]
   \<and> calls (runTimers test_host (deleteFile test_host file_a (writeFile test_host file_a [] two_watchers)))
       = [(1, file_a, Created), (2, file_a, Created), (1, file_a, Deleted), (2, file_a, Deleted)]
   \<and> calls (runTimers test_host (deleteFile test_host file_a two_watchers)) = []"
proof -
  let ?w = "writeFile test_host file_a [] two_watchers"
  have np: "normalizePath test_host (toAbsolute test_host file_a) = file_a" by code_simp
  have e0: "\<not> fileExists test_host file_a two_watchers" by code_simp
  have r0: "registered test_host two_watchers file_a = [1, 2]" by code_simp
  have c0: "calls (runTimers test_host two_watchers) = []" by code_simp
  have r1: "registered test_host ?w file_a = [1, 2]" by code_simp
  from notification_kinds [of test_host file_a two_watchers "[]"] e0
  have w1: "calls (runTimers test_host ?w) = [(1, file_a, Created), (2, file_a, Created)]"
    and d0: "calls (runTimers test_host (deleteFile test_host file_a two_watchers)) = []"
    and e1: "fileExists test_host file_a ?w"
    unfolding np r0 c0 by simp_all
  from notification_kinds [of test_host file_a ?w "[1]"] e1
  have "calls (runTimers test_host (writeFile test_host file_a [1] ?w))
       = [(1, file_a, Created), (2, file_a, Created), (1, file_a, Changed), (2, file_a, Changed)]"
    and "calls (runTimers test_host (deleteFile test_host file_a ?w))
       = [(1, file_a, Created), (2, file_a, Created), (1, file_a, Deleted), (2, file_a, Deleted)]"
    unfolding np r1 w1 by simp_all
  with e0 w1 e1 d0 show ?thesis by (intro conjI)
qed

subsection \<open>Reading back what was written\<close>

lemma readFile_exec:
  "\<not> touches h path op \<Longrightarrow> readFile h path (exec h op st) = readFile h path st"
proof (cases op)
  case (WriteFile q data)
  assume "\<not> touches h path op"
  with WriteFile show ?thesis
    by (simp add: readFile_def fm_get_def fm_set_def update_conv' file_key_def)
next
  case (DeleteFile q)
  assume "\<not> touches h path op"
  with DeleteFile show ?thesis
    by (simp add: readFile_def fm_get_def fm_delete_def delete_conv' file_key_def)
next
  case (WatchFile q cb)
  then show ?thesis by (simp add: readFile_def)
next
  case (CloseHandle handle)
  then show ?thesis by (simp add: readFile_def)
next
  case Tick
  then show ?thesis by (simp add: readFile_def)
qed

lemma readFile_run:
  "\<forall>op \<in> set ops. \<not> touches h path op \<Longrightarrow> readFile h path (run h ops st) = readFile h path st"
  unfolding run_def by (induction ops arbitrary: st) (simp_all add: readFile_exec)

lemma readFile_writeFile: "readFile h path (writeFile h path data st) = Some data"
  by (simp add: readFile_def fm_get_def fm_set_def update_conv')

text \<open>
  C8. After \<open>writeFile(p, s)\<close>, and any operations among which none writes or deletes
  the file that \<open>p\<close> names, \<open>readFile(p)\<close> returns exactly \<open>s\<close>. The path may be
  relative or absolute: \<open>toAbsolute\<close> is applied to it on both sides.
\<close>

theorem readFile_after_writeFile:
  assumes "\<forall>op \<in> set ops. \<not> touches h path op"
  shows "readFile h path (run h ops (writeFile h path data st)) = Some data"
  using readFile_run [OF assms] readFile_writeFile by simp

theorem readFile_after_writeFile_witness:
  "readFile test_host (js_str ''a.ts'')
        (run test_host [WatchFile file_a 1, WriteFile (js_str ''/w/b.ts'') [2], DeleteFile (js_str ''c.ts''), Tick]
           (writeFile test_host (js_str ''a.ts'') [1] createVirtualTsSystem)) = Some [1]
   \<and> readFile test_host file_a (writeFile test_host (js_str ''a.ts'') [1] createVirtualTsSystem) = Some [1]"
proof -
  have h: "\<forall>op \<in> set [WatchFile file_a 1, WriteFile (js_str ''/w/b.ts'') [2], DeleteFile (js_str ''c.ts''), Tick].
      \<not> touches test_host (js_str ''a.ts'') op"
    by code_simp
  have a: "readFile test_host file_a (writeFile test_host (js_str ''a.ts'') [1] createVirtualTsSystem) = Some [1]"
    by code_simp
  from readFile_after_writeFile [OF h, of "[1]" createVirtualTsSystem] a
  show ?thesis by (intro conjI)
qed

subsection \<open>Implicit directories\<close>

lemma keys_exec:
  "set (fm_keys (virtualFs (exec h op st))) = stored_step h op (set (fm_keys (virtualFs st)))"
proof (cases op)
  case (WriteFile q data)
  then show ?thesis
    using dom_update [of "file_key h q" data "virtualFs st"]
    by (simp add: fm_keys_def fm_set_def file_key_def)
next
  case (DeleteFile q)
  then show ?thesis
    by (simp add: fm_keys_def fm_delete_def file_key_def delete_keys)
next
  case (WatchFile q cb)
  then show ?thesis by simp
next
  case (CloseHandle handle)
  then show ?thesis by simp
next
  case Tick
  then show ?thesis by simp
qed

lemma keys_run:
  "set (fm_keys (virtualFs (run h ops st))) = fold (stored_step h) ops (set (fm_keys (virtualFs st)))"
  unfolding run_def by (induction ops arbitrary: st) (simp_all add: keys_exec)

text \<open>
  C6, as stated, fails: the file \<open>/x/b.ts\<close> was written and its stored path has
  \<open>/x\<close> as a prefix, but once it is deleted \<open>directoryExists(/x)\<close> is false.
\<close>

theorem directoryExists_after_deleteFile:
  "startsWith (file_key test_host (js_str ''/x/b.ts'')) (file_key test_host (js_str ''/x''))
   \<and> directoryExists test_host (js_str ''/x'')
        (writeFile test_host (js_str ''/x/b.ts'') [] createVirtualTsSystem)
   \<and> \<not> directoryExists test_host (js_str ''/x'')
        (deleteFile test_host (js_str ''/x/b.ts'')
           (writeFile test_host (js_str ''/x/b.ts'') [] createVirtualTsSystem))"
  by code_simp

text \<open>
  C6, amended. In a system reached from a fresh one by any operations,
  \<open>directoryExists(d)\<close> is true if and only if at least one file that was written, and
  not deleted since, has the canonicalized, normalized form of \<open>d\<close> as a prefix of its
  stored path.
\<close>

theorem directoryExists_iff_stored_prefix:
  "directoryExists h d (run h ops createVirtualTsSystem)
     \<longleftrightarrow> (\<exists>fileName \<in> stored_paths h ops. startsWith fileName (file_key h d))"
proof -
  have "set (fm_keys (virtualFs (run h ops createVirtualTsSystem))) = stored_paths h ops"
    unfolding keys_run stored_paths_def by (simp add: createVirtualTsSystem_def fm_keys_def)
  then show ?thesis
    by (simp add: directoryExists_def Let_def list_ex_iff file_key_def)
qed


theorem directoryExists_iff_stored_prefix_witness:
  "stored_paths test_host [WriteFile (js_str ''a.ts'') [], WriteFile (js_str ''/x/b.ts'') [], DeleteFile (js_str ''/x/b.ts'')]
     = {file_a}
   \<and> directoryExists test_host (js_str ''/w'')
        (run test_host [WriteFile (js_str ''a.ts'') [], WriteFile (js_str ''/x/b.ts'') [], DeleteFile (js_str ''/x/b.ts'')]
           createVirtualTsSystem)
   \<and> \<not> directoryExists test_host (js_str ''/x'')
        (run test_host [WriteFile (js_str ''a.ts'') [], WriteFile (js_str ''/x/b.ts'') [], DeleteFile (js_str ''/x/b.ts'')]
           createVirtualTsSystem)"
proof -
  let ?ops = "[WriteFile (js_str ''a.ts'') [], WriteFile (js_str ''/x/b.ts'') [], DeleteFile (js_str ''/x/b.ts'')]"
  have s: "stored_paths test_host ?ops = {file_a}" by code_simp
  have k1: "startsWith file_a (file_key test_host (js_str ''/w''))" by code_simp
  have k2: "\<not> startsWith file_a (file_key test_host (js_str ''/x''))" by code_simp
  from directoryExists_iff_stored_prefix [of test_host "js_str ''/w''" ?ops]
       directoryExists_iff_stored_prefix [of test_host "js_str ''/x''" ?ops]
  show ?thesis unfolding s using k1 k2 by simp
qed

subsection \<open>Disposing a watch handle\<close>

text \<open>
  C1 at a concrete input: the callbacks 1 and 2 watch \<open>file_a\<close>, and the handle that
  \<open>watchFile(file_a, 1)\<close> returned is closed. The registry entry then holds callback 1
  alone: the closed callback stays, the other one is removed. A later write is delivered to
  callback 1 and not to callback 2.
\<close>

theorem close_keeps_only_the_closed_watcher:
  "snd (watchFile test_host file_a 1 createVirtualTsSystem) = (file_a, 1)
   \<and> registered test_host two_watchers file_a = [1, 2]
   \<and> registered test_host (close test_host (file_a, 1) two_watchers) file_a = [1]
   \<and> calls (runTimers test_host (writeFile test_host file_a [] (close test_host (file_a, 1) two_watchers)))
       = [(1, file_a, Created)]"
  by code_simp

lemma fm_get_set:
  "fm_get h (fm_set h m p v) q
     = (if getCanonicalFileName h q = getCanonicalFileName h p then Some v else fm_get h m q)"
  by (simp add: fm_get_def fm_set_def update_conv')

lemma fm_get_same_key:
  "getCanonicalFileName h q = getCanonicalFileName h p \<Longrightarrow> fm_get h m q = fm_get h m p"
  by (simp add: fm_get_def)

lemma timers_recorded_mono:
  assumes "timers_recorded h st" and "set (pending st') \<subseteq> set (pending st)"
    and "watchTimeout st' = watchTimeout st"
  shows "timers_recorded h st'"
  using assms unfolding timers_recorded_def by fastforce

lemma timers_recorded_triggerWatch:
  assumes "timers_recorded h st"
  shows "timers_recorded h (triggerWatch h p k st)"
  unfolding timers_recorded_def
proof (intro ballI, clarify)
  fix t q kind
  assume "(t, q, kind) \<in> set (pending (triggerWatch h p k st))"
  then consider "(t, q, kind) \<in> set (pending st)" | "t = nextTimer st" "q = p" by auto
  then show "\<exists>timeouts. fm_get h (watchTimeout (triggerWatch h p k st)) q = Some timeouts
        \<and> t \<in> set timeouts"
  proof cases
    case 1
    with assms obtain ts where ts: "fm_get h (watchTimeout st) q = Some ts" "t \<in> set ts"
      unfolding timers_recorded_def by fastforce
    show ?thesis
    proof (cases "getCanonicalFileName h q = getCanonicalFileName h p")
      case True
      with ts have "fm_get h (watchTimeout st) p = Some ts" using fm_get_same_key by metis
      with True ts(2) show ?thesis by (simp add: triggerWatch_def Let_def fm_get_set)
    next
      case False
      with ts show ?thesis by (simp add: triggerWatch_def Let_def fm_get_set)
    qed
  next
    case 2
    then show ?thesis by (simp add: triggerWatch_def Let_def fm_get_set)
  qed
qed

lemma timers_recorded_exec:
  assumes "timers_recorded h st"
  shows "timers_recorded h (exec h op st)"
proof (cases op)
  case (WriteFile q data)
  have "timers_recorded h (st\<lparr>virtualFs := a, modifiedTime := b\<rparr>)" for a b
    using assms by (simp add: timers_recorded_def)
  then show ?thesis using WriteFile
    by (simp add: writeFile_def Let_def timers_recorded_triggerWatch)
next
  case (DeleteFile q)
  have "timers_recorded h (st\<lparr>virtualFs := a\<rparr>)" for a
    using assms by (simp add: timers_recorded_def)
  then show ?thesis using DeleteFile
    by (simp add: deleteFile_def Let_def timers_recorded_triggerWatch)
next
  case (WatchFile q cb)
  then show ?thesis using assms by (simp add: timers_recorded_def)
next
  case (CloseHandle handle)
  have "set (pending (close h handle st)) \<subseteq> set (pending st)"
    by (auto split: option.splits)
  with assms show ?thesis using CloseHandle by (simp add: timers_recorded_mono)
next
  case Tick
  have "set (pending (tick h st)) \<subseteq> set (pending st)"
    by (cases "pending st") auto
  with assms show ?thesis using Tick by (simp add: timers_recorded_mono)
qed

lemma timers_recorded_run:
  "timers_recorded h st \<Longrightarrow> timers_recorded h (run h ops st)"
  unfolding run_def by (induction ops arbitrary: st) (simp_all add: timers_recorded_exec)

lemma timers_recorded_reachable: "timers_recorded h (run h ops createVirtualTsSystem)"
  by (rule timers_recorded_run) (simp add: timers_recorded_def createVirtualTsSystem_def)

lemma deliveries_other_paths:
  assumes "\<forall>(t, q, kind) \<in> set timers. getCanonicalFileName h q \<noteq> getCanonicalFileName h np"
  shows "filter (\<lambda>(c, q, kind). getCanonicalFileName h q = getCanonicalFileName h np)
           (deliveries h st timers) = []"
  using assms by (induction timers) (auto simp: deliveries_def filter_empty_conv)

lemma nextTimer_fields [simp]:
  "nextTimer (triggerWatch h p k st) = Suc (nextTimer st)"
  "nextTimer (fst (watchFile h path cb st)) = nextTimer st"
  "nextTimer (fold clearTimeout ts st) = nextTimer st"
  "nextTimer (fire h p k st) = nextTimer st"
  by (simp_all add: triggerWatch_def watchFile_def Let_def fire_def split: option.splits)
     (induction ts arbitrary: st, simp_all add: clearTimeout_def)

lemma nextTimer_close [simp]: "nextTimer (close h handle st) = nextTimer st"
  by (simp add: close_def Let_def split: option.splits)

lemma nextTimer_tick [simp]: "nextTimer (tick h st) = nextTimer st"
  by (simp add: tick_def split: list.splits)

lemma timers_owned_mono:
  assumes "timers_owned h st" and "set (pending st') \<subseteq> set (pending st)"
    and "watchTimeout st' = watchTimeout st" and "nextTimer st' = nextTimer st"
  shows "timers_owned h st'"
  using assms unfolding timers_owned_def by (simp add: subset_iff) blast


lemma watchTimeout_triggerWatch:
  "fm_get h (watchTimeout (triggerWatch h p k st)) q
     = (if getCanonicalFileName h q = getCanonicalFileName h p
        then Some ((case fm_get h (watchTimeout st) p of None \<Rightarrow> [] | Some ts \<Rightarrow> ts) @ [nextTimer st])
        else fm_get h (watchTimeout st) q)"
  by (simp add: triggerWatch_def Let_def fm_get_set)

lemma timers_owned_triggerWatch:
  assumes "timers_owned h st"
  shows "timers_owned h (triggerWatch h p k st)"
proof -
  let ?st' = "triggerWatch h p k st"
  let ?old = "case fm_get h (watchTimeout st) p of None \<Rightarrow> [] | Some ts \<Rightarrow> ts"
  from assms have fresh: "\<And>t q kind. (t, q, kind) \<in> set (pending st) \<Longrightarrow> t < nextTimer st"
    unfolding timers_owned_def by blast
  from assms have listed: "\<And>path ts t. fm_get h (watchTimeout st) path = Some ts \<Longrightarrow> t \<in> set ts
      \<Longrightarrow> t < nextTimer st"
    unfolding timers_owned_def by blast
  from assms have owner: "\<And>path ts t q kind. fm_get h (watchTimeout st) path = Some ts \<Longrightarrow> t \<in> set ts
      \<Longrightarrow> (t, q, kind) \<in> set (pending st)
      \<Longrightarrow> getCanonicalFileName h q = getCanonicalFileName h path"
    unfolding timers_owned_def by blast
  have old_listed: "t < nextTimer st" if "t \<in> set ?old" for t
    using that listed [of p] by (cases "fm_get h (watchTimeout st) p") auto
  have old_owner: "getCanonicalFileName h q = getCanonicalFileName h p"
    if "t \<in> set ?old" "(t, q, kind) \<in> set (pending st)" for t q kind
    using that owner [of p] by (cases "fm_get h (watchTimeout st) p") auto
  have part1: "\<forall>(t, q, kind) \<in> set (pending ?st'). t < nextTimer ?st'"
    using fresh by (auto simp: less_Suc_eq)
  have part2: "t < nextTimer ?st'
      \<and> (\<forall>q kind. (t, q, kind) \<in> set (pending ?st') \<longrightarrow>
            getCanonicalFileName h q = getCanonicalFileName h path)"
    if get: "fm_get h (watchTimeout ?st') path = Some ts" and t: "t \<in> set ts" for path ts t
  proof (cases "getCanonicalFileName h path = getCanonicalFileName h p")
    case True
    with get have ts: "ts = ?old @ [nextTimer st]" by (simp add: watchTimeout_triggerWatch)
    show ?thesis
    proof (cases "t = nextTimer st")
      case True
      have "getCanonicalFileName h q = getCanonicalFileName h path"
        if "(t, q, kind) \<in> set (pending ?st')" for q kind
      proof -
        from that True fresh [of t q kind] have "q = p" by auto
        with \<open>getCanonicalFileName h path = getCanonicalFileName h p\<close> show ?thesis by simp
      qed
      with True show ?thesis by simp
    next
      case False
      with t ts have told: "t \<in> set ?old" by simp
      have "getCanonicalFileName h q = getCanonicalFileName h path"
        if "(t, q, kind) \<in> set (pending ?st')" for q kind
      proof -
        from that False have "(t, q, kind) \<in> set (pending st)" by auto
        from old_owner [OF told this] \<open>getCanonicalFileName h path = getCanonicalFileName h p\<close>
        show ?thesis by simp
      qed
      moreover from old_listed [OF told] have "t < nextTimer ?st'" by simp
      ultimately show ?thesis by simp
    qed
  next
    case False
    with get have g: "fm_get h (watchTimeout st) path = Some ts"
      by (simp add: watchTimeout_triggerWatch)
    from listed [OF g t] have lt: "t < nextTimer st" .
    have "getCanonicalFileName h q = getCanonicalFileName h path"
      if "(t, q, kind) \<in> set (pending ?st')" for q kind
    proof -
      from that lt have "(t, q, kind) \<in> set (pending st)" by auto
      from owner [OF g t this] show ?thesis .
    qed
    with lt show ?thesis by simp
  qed
  from part1 part2 show ?thesis unfolding timers_owned_def by blast
qed

lemma timers_owned_exec:
  assumes "timers_owned h st"
  shows "timers_owned h (exec h op st)"
proof (cases op)
  case (WriteFile q data)
  have "timers_owned h (st\<lparr>virtualFs := a, modifiedTime := b\<rparr>)" for a b
    using assms by (simp add: timers_owned_def)
  then show ?thesis using WriteFile
    by (simp add: writeFile_def Let_def timers_owned_triggerWatch)
next
  case (DeleteFile q)
  have "timers_owned h (st\<lparr>virtualFs := a\<rparr>)" for a
    using assms by (simp add: timers_owned_def)
  then show ?thesis using DeleteFile
    by (simp add: deleteFile_def Let_def timers_owned_triggerWatch)
next
  case (WatchFile q cb)
  then show ?thesis using assms by (simp add: timers_owned_mono [OF assms])
next
  case (CloseHandle handle)
  have "set (pending (close h handle st)) \<subseteq> set (pending st)"
    by (auto split: option.splits)
  then show ?thesis using CloseHandle by (simp add: timers_owned_mono [OF assms])
next
  case Tick
  have "set (pending (tick h st)) \<subseteq> set (pending st)"
    by (cases "pending st") auto
  then show ?thesis using Tick by (simp add: timers_owned_mono [OF assms])
qed

lemma timers_owned_run: "timers_owned h st \<Longrightarrow> timers_owned h (run h ops st)"
  unfolding run_def by (induction ops arbitrary: st) (simp_all add: timers_owned_exec)

lemma timers_owned_reachable: "timers_owned h (run h ops createVirtualTsSystem)"
  by (rule timers_owned_run)
     (simp add: timers_owned_def createVirtualTsSystem_def fm_get_def)

lemma pending_close_exact:
  assumes rec: "timers_recorded h st" and own: "timers_owned h st"
  shows "pending (close h (np, cb) st)
     = filter (\<lambda>(t, q, kind). getCanonicalFileName h q \<noteq> getCanonicalFileName h np) (pending st)"
proof (cases "fm_get h (watchTimeout st) np")
  case None
  have "getCanonicalFileName h q \<noteq> getCanonicalFileName h np"
    if "(t, q, kind) \<in> set (pending st)" for t q kind
  proof
    assume same: "getCanonicalFileName h q = getCanonicalFileName h np"
    from rec that obtain ts where "fm_get h (watchTimeout st) q = Some ts"
      unfolding timers_recorded_def by fastforce
    with fm_get_same_key [OF same, of "watchTimeout st"] None show False by simp
  qed
  then have "filter (\<lambda>(t, q, kind). getCanonicalFileName h q \<noteq> getCanonicalFileName h np) (pending st)
      = pending st"
    by (simp add: filter_id_conv case_prod_beta) (metis prod.collapse)
  with None show ?thesis by simp
next
  case (Some ts)
  have "(fst x \<notin> set ts) = (case x of (t, q, kind) \<Rightarrow>
          getCanonicalFileName h q \<noteq> getCanonicalFileName h np)"
    if x: "x \<in> set (pending st)" for x
  proof -
    obtain t q kind where xe: "x = (t, q, kind)" by (cases x) auto
    have "t \<in> set ts \<longleftrightarrow> getCanonicalFileName h q = getCanonicalFileName h np"
    proof
      assume "t \<in> set ts"
      with own Some x xe show "getCanonicalFileName h q = getCanonicalFileName h np"
        unfolding timers_owned_def by blast
    next
      assume same: "getCanonicalFileName h q = getCanonicalFileName h np"
      from rec x xe obtain ts' where ts': "fm_get h (watchTimeout st) q = Some ts'" "t \<in> set ts'"
        unfolding timers_recorded_def by fastforce
      with fm_get_same_key [OF same, of "watchTimeout st"] Some show "t \<in> set ts" by simp
    qed
    with xe show ?thesis by simp
  qed
  then have "filter (\<lambda>x. fst x \<notin> set ts) (pending st)
      = filter (\<lambda>(t, q, kind). getCanonicalFileName h q \<noteq> getCanonicalFileName h np) (pending st)"
    by (intro filter_cong refl)
  with Some show ?thesis by simp
qed


lemma watchers_close:
  "watchers (close h handle st)
     = (case fm_get h (watchers st) (fst handle) of
          None \<Rightarrow> watchers st
        | Some ws \<Rightarrow> fm_set h (watchers st) (fst handle) (filter (\<lambda>watcher. watcher = snd handle) ws))"
  by (simp add: close_def Let_def split: option.splits)

lemma registered_close_other:
  "getCanonicalFileName h q \<noteq> getCanonicalFileName h (fst handle)
     \<Longrightarrow> registered h (close h handle st) q = registered h st q"
  by (simp add: registered_def watchers_close fm_get_set split: option.splits)

lemma registered_same_key:
  "getCanonicalFileName h q = getCanonicalFileName h p \<Longrightarrow> registered h st q = registered h st p"
  by (simp add: registered_def fm_get_def)

lemma registered_watchFile:
  "registered h (fst (watchFile h path cb st)) q
     = registered h st q @ watch_of h q (WatchFile path cb)"
proof (cases "getCanonicalFileName h (normalizePath h (toAbsolute h path)) = getCanonicalFileName h q")
  case True
  then have "fm_get h (watchers st) (normalizePath h (toAbsolute h path)) = fm_get h (watchers st) q"
    by (rule fm_get_same_key)
  with True show ?thesis
    by (simp add: registered_def watchFile_def Let_def fm_get_set split: option.splits)
next
  case False
  then have "getCanonicalFileName h q \<noteq> getCanonicalFileName h (normalizePath h (toAbsolute h path))"
    by simp
  with False show ?thesis
    by (simp add: registered_def watchFile_def Let_def fm_get_set)
qed

lemma registered_exec:
  "\<not> closes_path h np op \<Longrightarrow> registered h (exec h op st) np = registered h st np @ watch_of h np op"
proof (cases op)
  case (WriteFile q data)
  then show ?thesis using registered_cong [of "writeFile h q data st" st h] by simp
next
  case (DeleteFile q)
  then show ?thesis using registered_cong [of "deleteFile h q st" st h] by simp
next
  case (WatchFile q cb)
  then show ?thesis by (simp only: exec.simps registered_watchFile)
next
  case (CloseHandle handle)
  assume "\<not> closes_path h np op"
  with CloseHandle show ?thesis using registered_close_other [of h np handle st] by simp
next
  case Tick
  then show ?thesis using registered_cong [of "tick h st" st h] by simp
qed

lemma registered_run:
  "\<forall>op \<in> set ops. \<not> closes_path h np op
     \<Longrightarrow> registered h (run h ops st) np = registered h st np @ watched h np ops"
  unfolding run_def watched_def
  by (induction ops arbitrary: st) (simp_all add: registered_exec)

lemma registered_fresh: "registered h createVirtualTsSystem np = []"
  by (simp add: registered_def createVirtualTsSystem_def fm_get_def)

lemma filter_same_deliveries:
  "filter (\<lambda>(c, q, kind). getCanonicalFileName h q = getCanonicalFileName h np) (deliveries h st timers)
     = concat (map (\<lambda>(t, q, kind). map (\<lambda>c. (c, q, kind)) (registered h st np))
                (filter (\<lambda>(t, q, kind). getCanonicalFileName h q = getCanonicalFileName h np) timers))"
proof (induction timers)
  case Nil
  show ?case by (simp add: deliveries_def)
next
  case (Cons x timers)
  obtain t q kind where x: "x = (t, q, kind)" by (cases x) auto
  have split: "deliveries h st ((t, q, kind) # timers)
      = map (\<lambda>c. (c, q, kind)) (registered h st q) @ deliveries h st timers"
    by (simp add: deliveries_def)
  show ?case
  proof (cases "getCanonicalFileName h q = getCanonicalFileName h np")
    case True
    then have "registered h st q = registered h st np" by (rule registered_same_key)
    with True Cons.IH show ?thesis unfolding x split by (simp add: filter_map comp_def)
  next
    case False
    with Cons.IH show ?thesis unfolding x split by (simp add: filter_map comp_def)
  qed
qed

lemma deliveries_close_other:
  assumes "\<forall>(t, q, kind) \<in> set timers. getCanonicalFileName h q \<noteq> getCanonicalFileName h np"
  shows "deliveries h (close h (np, cb) st) timers = deliveries h st timers"
  using assms
proof (induction timers)
  case Nil
  show ?case by (simp add: deliveries_def)
next
  case (Cons x timers)
  obtain t q kind where x: "x = (t, q, kind)" by (cases x) auto
  from Cons.prems x have "getCanonicalFileName h q \<noteq> getCanonicalFileName h (fst (np, cb))" by simp
  then have "registered h (close h (np, cb) st) q = registered h st q"
    by (rule registered_close_other)
  moreover from Cons have "deliveries h (close h (np, cb) st) timers = deliveries h st timers" by simp
  ultimately show ?case unfolding x deliveries_def by simp
qed

text \<open>
  C3, as stated, fails: the callbacks 1 and 2 watch \<open>file_a\<close>, a write schedules a
  notification, and the handle of callback 1 is closed before it fires. Without the
  disposal both callbacks are called; with it the timer is cancelled and callback 2, whose
  handle was never closed, is not called either.
\<close>

theorem close_suppresses_other_watcher:
  "registered test_host (writeFile test_host file_a [] two_watchers) file_a = [1, 2]
   \<and> calls (runTimers test_host (writeFile test_host file_a [] two_watchers))
       = [(1, file_a, Created), (2, file_a, Created)]
   \<and> pending (close test_host (file_a, 1) (writeFile test_host file_a [] two_watchers)) = []
   \<and> calls (runTimers test_host (close test_host (file_a, 1) (writeFile test_host file_a [] two_watchers)))
       = []"
  by code_simp

text \<open>
  C3, amended. In a system reached from a fresh one by any operations, closing a watch
  handle for a path cancels exactly the notifications still pending for that path: the
  timers of every other path stay. When the timers then run, no watcher of the path, the
  closed one or any other, is called for the cancelled notifications, and the calls made
  are those that would have been made without the disposal for the other paths. A disposal
  retracts no call already made. As long as no handle of a path has been closed, its
  registry entry holds the callbacks \<open>watchFile\<close> was called with for it, in that order,
  and the timers deliver every notification pending for the path to each of them, in
  scheduling order, whatever handles of other paths were closed.
\<close>

theorem close_cancels_pending_notifications:
  "pending (close h (np, cb) (run h ops createVirtualTsSystem))
     = filter (\<lambda>(t, q, kind). getCanonicalFileName h q \<noteq> getCanonicalFileName h np)
         (pending (run h ops createVirtualTsSystem))
   \<and> calls (runTimers h (close h (np, cb) (run h ops createVirtualTsSystem)))
     = calls (run h ops createVirtualTsSystem)
       @ deliveries h (run h ops createVirtualTsSystem)
           (filter (\<lambda>(t, q, kind). getCanonicalFileName h q \<noteq> getCanonicalFileName h np)
              (pending (run h ops createVirtualTsSystem)))
   \<and> calls (runTimers h (run h ops createVirtualTsSystem))
     = calls (run h ops createVirtualTsSystem)
       @ deliveries h (run h ops createVirtualTsSystem) (pending (run h ops createVirtualTsSystem))
   \<and> filter (\<lambda>(c, q, kind). getCanonicalFileName h q = getCanonicalFileName h np)
        (calls (runTimers h (close h (np, cb) (run h ops createVirtualTsSystem))))
     = filter (\<lambda>(c, q, kind). getCanonicalFileName h q = getCanonicalFileName h np)
        (calls (run h ops createVirtualTsSystem))
   \<and> calls (close h (np, cb) (run h ops createVirtualTsSystem)) = calls (run h ops createVirtualTsSystem)
   \<and> ((\<forall>op \<in> set ops. \<not> closes_path h np op) \<longrightarrow>
        registered h (run h ops createVirtualTsSystem) np = watched h np ops
        \<and> filter (\<lambda>(c, q, kind). getCanonicalFileName h q = getCanonicalFileName h np)
             (calls (runTimers h (run h ops createVirtualTsSystem)))
          = filter (\<lambda>(c, q, kind). getCanonicalFileName h q = getCanonicalFileName h np)
              (calls (run h ops createVirtualTsSystem))
            @ concat (map (\<lambda>(t, q, kind). map (\<lambda>c. (c, q, kind)) (watched h np ops))
                       (filter (\<lambda>(t, q, kind). getCanonicalFileName h q = getCanonicalFileName h np)
                          (pending (run h ops createVirtualTsSystem)))))"
proof -
  let ?st = "run h ops createVirtualTsSystem"
  let ?other = "\<lambda>(t :: nat, q, kind :: FileWatcherEventKind). getCanonicalFileName h q \<noteq> getCanonicalFileName h np"
  let ?same = "\<lambda>(c :: nat, q, kind :: FileWatcherEventKind). getCanonicalFileName h q = getCanonicalFileName h np"
  have A: "pending (close h (np, cb) ?st) = filter ?other (pending ?st)"
    using timers_recorded_reachable timers_owned_reachable by (rule pending_close_exact)
  have others: "\<forall>(t, q, kind) \<in> set (filter ?other (pending ?st)).
      getCanonicalFileName h q \<noteq> getCanonicalFileName h np"
    by auto
  have "calls (runTimers h (close h (np, cb) ?st))
      = calls (close h (np, cb) ?st)
        @ deliveries h (close h (np, cb) ?st) (pending (close h (np, cb) ?st))"
    by (rule calls_runTimers)
  also have "calls (close h (np, cb) ?st) = calls ?st" by simp
  finally have D: "calls (runTimers h (close h (np, cb) ?st))
      = calls ?st @ deliveries h ?st (filter ?other (pending ?st))"
    unfolding A deliveries_close_other [OF others, of cb ?st] .
  have E: "calls (runTimers h ?st) = calls ?st @ deliveries h ?st (pending ?st)"
    by (rule calls_runTimers)
  have B: "filter ?same (calls (runTimers h (close h (np, cb) ?st))) = filter ?same (calls ?st)"
    unfolding D using deliveries_other_paths [OF others, of ?st] by simp
  have F: "calls (close h (np, cb) ?st) = calls ?st" by simp
  have C: "registered h ?st np = watched h np ops
      \<and> filter ?same (calls (runTimers h ?st))
          = filter ?same (calls ?st)
            @ concat (map (\<lambda>(t, q, kind). map (\<lambda>c. (c, q, kind)) (watched h np ops))
                       (filter ?same (pending ?st)))"
    if noclose: "\<forall>op \<in> set ops. \<not> closes_path h np op"
  proof -
    from registered_run [OF noclose, of createVirtualTsSystem]
    have r: "registered h ?st np = watched h np ops" by (simp add: registered_fresh)
    show ?thesis unfolding E using r by (simp add: filter_same_deliveries)
  qed
  from A D E B F C show ?thesis by blast
qed


theorem close_cancels_pending_notifications_witness:
  "pending (close test_host (file_a, 1)
      (run test_host [WatchFile file_a 1, WatchFile file_a 2, WriteFile file_a []] createVirtualTsSystem))
     = []
   \<and> calls (runTimers test_host (close test_host (file_a, 1)
      (run test_host [WatchFile file_a 1, WatchFile file_a 2, WriteFile file_a []] createVirtualTsSystem)))
     = []
   \<and> registered test_host
        (run test_host [WatchFile file_a 1, WatchFile file_a 2, WriteFile file_a []] createVirtualTsSystem)
        file_a
     = [1, 2]
   \<and> calls (runTimers test_host
        (run test_host [WatchFile file_a 1, WatchFile file_a 2, WriteFile file_a []] createVirtualTsSystem))
     = [(1, file_a, Created), (2, file_a, Created)]
   \<and> pending (close test_host (file_a, 1)
        (run test_host [WatchFile file_a 1, WatchFile file_b 2, WriteFile file_b []] createVirtualTsSystem))
     = [(0, file_b, Created)]
   \<and> calls (runTimers test_host (close test_host (file_a, 1)
        (run test_host [WatchFile file_a 1, WatchFile file_b 2, WriteFile file_b []] createVirtualTsSystem)))
     = [(2, file_b, Created)]"
proof -
  let ?ops1 = "[WatchFile file_a 1, WatchFile file_a 2, WriteFile file_a []]"
  let ?ops2 = "[WatchFile file_a 1, WatchFile file_b 2, WriteFile file_b []]"
  let ?s1 = "run test_host ?ops1 createVirtualTsSystem"
  let ?s2 = "run test_host ?ops2 createVirtualTsSystem"
  have canon: "getCanonicalFileName test_host = (\<lambda>path. path)" by (simp add: test_host_def)
  have ne: "file_b \<noteq> file_a" by code_simp
  have p1: "pending ?s1 = [(0, file_a, Created)]" by code_simp
  have c1: "calls ?s1 = []" by code_simp
  have d1: "deliveries test_host ?s1 [(0, file_a, Created)] = [(1, file_a, Created), (2, file_a, Created)]"
    by code_simp
  have e1: "deliveries test_host ?s1 [] = []" by (simp add: deliveries_def)
  have n1: "\<forall>op \<in> set ?ops1. \<not> closes_path test_host file_a op" by simp
  have w1: "watched test_host file_a ?ops1 = [1, 2]" by code_simp
  have p2: "pending ?s2 = [(0, file_b, Created)]" by code_simp
  have c2: "calls ?s2 = []" by code_simp
  have d2: "deliveries test_host ?s2 [(0, file_b, Created)] = [(2, file_b, Created)]" by code_simp
  note t1 = close_cancels_pending_notifications [of test_host file_a 1 ?ops1, unfolded canon p1 c1]
  note t2 = close_cancels_pending_notifications [of test_host file_a 1 ?ops2, unfolded canon p2 c2]
  from t1 have a1: "pending (close test_host (file_a, 1) ?s1) = []"
    and a2: "calls (runTimers test_host (close test_host (file_a, 1) ?s1)) = []"
    and a4: "calls (runTimers test_host ?s1) = [(1, file_a, Created), (2, file_a, Created)]"
    using d1 e1 by simp_all
  from t1 n1 have a3: "registered test_host ?s1 file_a = [1, 2]"
    unfolding w1 by blast
  from t2 ne have b1: "pending (close test_host (file_a, 1) ?s2) = [(0, file_b, Created)]"
    and b2: "calls (runTimers test_host (close test_host (file_a, 1) ?s2)) = [(2, file_b, Created)]"
    using d2 by simp_all
  from a1 a2 a3 a4 b1 b2 show ?thesis by (intro conjI)
qed

end
